theory Spec2Isabelle
  imports Complex_Main "HOL-Library.Sublist"
begin

chapter \<open>The program\<close>

section \<open>Strings and paths\<close>

text \<open>
  Python strings are modelled as \<^typ>\<open>string\<close> (lists of 8-bit characters, the UTF-8
  bytes of the text). Equality, concatenation, prefix and substring tests, splitting at
  an ASCII separator and searching for an ASCII character give the same answers on the
  UTF-8 bytes as on the code points.
\<close>

text \<open>\<^verbatim>\<open>s.startswith(p)\<close>\<close>

fun startswith :: "string \<Rightarrow> string \<Rightarrow> bool" where
  "startswith s [] = True"
| "startswith [] (p # ps) = False"
| "startswith (c # cs) (p # ps) = (c = p \<and> startswith cs ps)"

text \<open>\<^verbatim>\<open>needle in s\<close> for strings: \<^verbatim>\<open>needle\<close> occurs as a contiguous substring.\<close>

fun contains :: "string \<Rightarrow> string \<Rightarrow> bool" where
  "contains [] needle = (needle = [])"
| "contains (c # cs) needle = (startswith (c # cs) needle \<or> contains cs needle)"

text \<open>
  \<^verbatim>\<open>s.replace(old, new)\<close>: every non-overlapping occurrence of \<^verbatim>\<open>old\<close>, found from
  left to right, is replaced; the scan resumes after the replaced text. For an empty
  \<^verbatim>\<open>old\<close> Python inserts \<^verbatim>\<open>new\<close> before every character and at the end.
\<close>

function str_replace :: "string \<Rightarrow> string \<Rightarrow> string \<Rightarrow> string" where
  "str_replace old new s =
     (if old = [] then new @ concat (map (\<lambda>c. c # new) s)
      else if s = [] then []
      else if startswith s old then new @ str_replace old new (drop (length old) s)
      else hd s # str_replace old new (tl s))"
  by pat_completeness auto
termination
  by (relation "measure (\<lambda>(old, new, s). length s)") auto

text \<open>\<^verbatim>\<open>s.split(sep)\<close> for a one-character separator.\<close>

fun split_sep :: "char \<Rightarrow> string \<Rightarrow> string list" where
  "split_sep sep [] = [[]]"
| "split_sep sep (c # cs) =
     (if c = sep then [] # split_sep sep cs
      else (case split_sep sep cs of
              [] \<Rightarrow> [[c]]
            | p # ps \<Rightarrow> (c # p) # ps))"

text \<open>
  \<^verbatim>\<open>Path(p).name\<close> on a POSIX system: the path is split at \<^verbatim>\<open>/\<close>, empty components and
  \<^verbatim>\<open>.\<close> components are dropped, and the name is the last component left, or the empty
  string when none is left (\<^verbatim>\<open>/\<close>, \<^verbatim>\<open>.\<close>, \<^verbatim>\<open>./\<close>).
\<close>

definition path_parts :: "string \<Rightarrow> string list" where
  "path_parts p = filter (\<lambda>x. x \<noteq> [] \<and> x \<noteq> ''.'') (split_sep CHR ''/'' p)"

definition path_name :: "string \<Rightarrow> string" where
  "path_name p = (case path_parts p of [] \<Rightarrow> [] | x # xs \<Rightarrow> last (x # xs))"

text \<open>\<^verbatim>\<open>s.rfind(c)\<close>: the index of the last occurrence of \<^verbatim>\<open>c\<close>, or \<^verbatim>\<open>-1\<close>.\<close>

definition rfind :: "string \<Rightarrow> char \<Rightarrow> int" where
  "rfind s c =
     (if c \<in> set s
      then int (length s) - 1 - int (length (takeWhile (\<lambda>x. x \<noteq> c) (rev s)))
      else - 1)"

text \<open>
  \<^verbatim>\<open>PurePath.suffix\<close> and \<^verbatim>\<open>PurePath.stem\<close> as pathlib defines them up to Python 3.13:
  with \<^verbatim>\<open>i = name.rfind('.')\<close>, the suffix is \<^verbatim>\<open>name[i:]\<close> and the stem \<^verbatim>\<open>name[:i]\<close> when
  \<^verbatim>\<open>0 < i < len(name) - 1\<close>; otherwise the suffix is empty and the stem is the name.
\<close>

definition name_suffix :: "string \<Rightarrow> string" where
  "name_suffix name =
     (let i = rfind name CHR ''.''
      in if 0 < i \<and> i < int (length name) - 1 then drop (nat i) name else [])"

definition name_stem :: "string \<Rightarrow> string" where
  "name_stem name =
     (let i = rfind name CHR ''.''
      in if 0 < i \<and> i < int (length name) - 1 then take (nat i) name else name)"

text \<open>
  \<^verbatim>\<open>s.lower()\<close> restricted to what the comparison with the ASCII extension literals
  needs: ASCII capitals are lowered, every other byte is kept.
\<close>

definition ascii_lower :: "char \<Rightarrow> char" where
  "ascii_lower c =
     (let n = (of_char c :: nat) in if 65 \<le> n \<and> n \<le> 90 then char_of (n + 32) else c)"

definition lower :: "string \<Rightarrow> string" where
  "lower s = map ascii_lower s"

text \<open>\<^verbatim>\<open>s.upper()\<close>, on ASCII letters.\<close>

definition ascii_upper :: "char \<Rightarrow> char" where
  "ascii_upper c =
     (let n = (of_char c :: nat) in if 97 \<le> n \<and> n \<le> 122 then char_of (n - 32) else c)"

definition upper :: "string \<Rightarrow> string" where
  "upper s = map ascii_upper s"

text \<open>\<^verbatim>\<open>str(n)\<close> for a natural number, and the format \<^verbatim>\<open>{n:02d}\<close>.\<close>

fun str_of_nat :: "nat \<Rightarrow> string" where
  "str_of_nat n =
     (if n < 10 then [char_of (48 + n)]
      else str_of_nat (n div 10) @ [char_of (48 + n mod 10)])"

declare str_of_nat.simps [simp del]

definition fmt_02d :: "nat \<Rightarrow> string" where
  "fmt_02d n = (let s = str_of_nat n in replicate (2 - length s) CHR ''0'' @ s)"

section \<open>Markdown reference extraction\<close>

text \<open>
  \<^verbatim>\<open>extract_image_references\<close> runs \<^verbatim>\<open>re.findall\<close> with the pattern
  \<^verbatim>\<open>!\[([^\]]*)\]\(([^)]+)\)\<close>. \<open>match_image s\<close> is \<^verbatim>\<open>re.match\<close> of that pattern at the start
  of \<open>s\<close>: it yields the two groups and the text after the match. The greedy class
  \<^verbatim>\<open>[^\]]*\<close> takes the longest run of characters other than \<^verbatim>\<open>]\<close>; a shorter run would be
  followed by a character of the run, never by \<^verbatim>\<open>]\<close>, so backtracking finds nothing
  else. The same holds for \<^verbatim>\<open>[^)]+\<close>, which also needs one character at least. Negated
  classes match newlines.
\<close>

definition match_image :: "string \<Rightarrow> (string \<times> string \<times> string) option" where
  "match_image s =
     (if startswith s ''!['' then
        let s1 = drop 2 s;
            alt = takeWhile (\<lambda>c. c \<noteq> CHR '']'') s1;
            s2 = dropWhile (\<lambda>c. c \<noteq> CHR '']'') s1
        in if startswith s2 '']('' then
             let s3 = drop 2 s2;
                 path = takeWhile (\<lambda>c. c \<noteq> CHR '')'') s3;
                 s4 = dropWhile (\<lambda>c. c \<noteq> CHR '')'') s3
             in if path \<noteq> [] \<and> startswith s4 '')'' then Some (alt, path, drop 1 s4) else None
           else None
      else None)"

text \<open>A match consumes text, so the scan below terminates.\<close>

lemma match_image_shorter:
  assumes "match_image s = Some (alt, path, rest)"
  shows "length rest < length s"
proof -
  define s1 where "s1 = drop 2 s"
  define s2 where "s2 = dropWhile (\<lambda>c. c \<noteq> CHR '']'') s1"
  define s3 where "s3 = drop 2 s2"
  define s4 where "s4 = dropWhile (\<lambda>c. c \<noteq> CHR '')'') s3"
  from assms have "startswith s4 '')''" and rest: "rest = drop 1 s4"
    by (auto simp: match_image_def Let_def s1_def s2_def s3_def s4_def split: if_splits)
  then have "s4 \<noteq> []" by (cases s4) simp_all
  with rest have "length rest < length s4" by simp
  also have "length s4 \<le> length s3" unfolding s4_def by (rule length_dropWhile_le)
  also have "length s3 \<le> length s2" by (simp add: s3_def)
  also have "length s2 \<le> length s1" unfolding s2_def by (rule length_dropWhile_le)
  also have "length s1 \<le> length s" by (simp add: s1_def)
  finally show ?thesis .
qed

text \<open>
  \<^verbatim>\<open>re.findall\<close>: the text is scanned from the left; where the pattern matches, the
  groups are recorded and the scan resumes after the match (a match is never empty
  here); elsewhere the scan moves on by one character.
\<close>

function findall_image :: "string \<Rightarrow> (string \<times> string) list" where
  "findall_image s =
     (if s = [] then []
      else (case match_image s of
              None \<Rightarrow> findall_image (tl s)
            | Some (alt, path, rest) \<Rightarrow> (alt, path) # findall_image rest))"
  by pat_completeness auto
termination
  by (relation "measure length") (auto simp: match_image_shorter)

text \<open>
  The loop of \<^verbatim>\<open>extract_image_references\<close> rebuilds the matched text from the groups:
  \<^verbatim>\<open>full_match = f'![{alt}]({path})'\<close>.
\<close>

definition extract_image_references :: "string \<Rightarrow> (string \<times> string \<times> string) list" where
  "extract_image_references markdown_content =
     map (\<lambda>(alt, path). (''!['' @ alt @ '']('' @ path @ '')'', alt, path))
       (findall_image markdown_content)"

declare findall_image.simps [simp del]

section \<open>Filename and type resolution\<close>

text \<open>
  \<^verbatim>\<open>get_file_type\<close>: the type is read from the lowered suffix of \<^verbatim>\<open>Path(filename)\<close>.
\<close>

definition get_file_type :: "string \<Rightarrow> string option" where
  "get_file_type filename =
     (let ext = lower (name_suffix (path_name filename))
      in if ext \<in> set [''.jpg'', ''.jpeg''] then Some ''jpeg''
         else if ext = ''.heic'' then Some ''heic''
         else if ext \<in> set [''.tif'', ''.tiff''] then Some ''tiff''
         else if ext = ''.png'' then Some ''png''
         else if ext = ''.webp'' then Some ''webp''
         else if ext \<in> set [''.mov'', ''.mp4'', ''.avi''] then Some ''video''
         else None)"

text \<open>
  The attachments directory is its listing in the order \<^verbatim>\<open>iterdir()\<close> yields it: each
  entry with its name and its kind. For a regular file (or a symbolic link to one) both
  \<^verbatim>\<open>exists()\<close> and \<^verbatim>\<open>is_file()\<close> hold; for another existing entry, such as a directory, only
  \<^verbatim>\<open>exists()\<close> holds; for a dangling symbolic link, which \<^verbatim>\<open>iterdir()\<close> lists all the same,
  neither holds. A path below the directory is an entry, the directory itself
  (\<^verbatim>\<open>attachments_dir / ''\<close>) or its parent (\<^verbatim>\<open>attachments_dir / '..'\<close>); \<open>file_name\<close> is its
  \<^verbatim>\<open>.name\<close>. The requested filename is a final path component, so it holds no \<^verbatim>\<open>/\<close>.
\<close>

datatype entry_kind = File | Other | Dangling

type_synonym listing = "(string \<times> entry_kind) list"

datatype att_path = Entry string | DirItself | DirParent

fun file_name :: "att_path \<Rightarrow> string" where
  "file_name (Entry n) = n"
| "file_name DirItself = ''Attachments''"
| "file_name DirParent = ''..''"

text \<open>
  The exceptions that leave \<^verbatim>\<open>process_post\<close>, by class: \<open>OSError\<close> stands for the class
  and its subclasses (\<^verbatim>\<open>NotADirectoryError\<close>, \<^verbatim>\<open>FileExistsError\<close>, \<^verbatim>\<open>shutil.SameFileError\<close>
  and the others).
\<close>

datatype exception = OSError | UnicodeDecodeError | UnicodeEncodeError

text \<open>
  The longest file name, in bytes, that the filesystem accepts (\<^verbatim>\<open>NAME_MAX\<close>, 255 on the
  common filesystems).
\<close>

definition name_max :: nat where
  "name_max = 255"

text \<open>
  \<^verbatim>\<open>(attachments_dir / filename).exists()\<close>, with pathlib as it is from Python 3.8 to 3.13:
  \<^verbatim>\<open>os.stat\<close> fails with \<^verbatim>\<open>ENAMETOOLONG\<close> for a name longer than \<^verbatim>\<open>NAME_MAX\<close>, an error that
  \<^verbatim>\<open>exists()\<close> does not swallow, so the \<^verbatim>\<open>OSError\<close> propagates. A name with a NUL byte
  never reaches the system call: \<^verbatim>\<open>os.stat\<close> raises \<^verbatim>\<open>ValueError\<close>, which \<^verbatim>\<open>exists()\<close> turns
  into false; no listed name holds one. Otherwise the answer is true for the names that
  denote the directory itself or its parent and for a listed entry that is not a
  dangling link. Names are compared byte by byte, as a case-sensitive filesystem does.
\<close>

definition exact_match :: "listing \<Rightarrow> string \<Rightarrow> exception + att_path option" where
  "exact_match dir filename =
     (if name_max < length filename \<and> CHR 0x00 \<notin> set filename then Inl OSError
      else if filename = [] \<or> filename = ''.'' then Inr (Some DirItself)
      else if filename = ''..'' then Inr (Some DirParent)
      else if (filename, File) \<in> set dir \<or> (filename, Other) \<in> set dir
      then Inr (Some (Entry filename))
      else Inr None)"

text \<open>
  \<^verbatim>\<open>find_file_by_basename\<close>: the exact name first; then the first regular file of the
  listing whose stem is the requested stem; then the first regular file whose name
  contains the requested stem.
\<close>

definition find_file_by_basename :: "listing \<Rightarrow> string \<Rightarrow> exception + att_path option" where
  "find_file_by_basename dir filename =
     (case exact_match dir filename of
        Inl err \<Rightarrow> Inl err
      | Inr (Some p) \<Rightarrow> Inr (Some p)
      | Inr None \<Rightarrow>
          (let basename = name_stem (path_name filename)
           in case find (\<lambda>(name, kind). kind = File \<and> name_stem name = basename) dir of
                Some (name, kind) \<Rightarrow> Inr (Some (Entry name))
              | None \<Rightarrow>
                  (case find (\<lambda>(name, kind). kind = File \<and> contains name basename) dir of
                     Some (name, kind) \<Rightarrow> Inr (Some (Entry name))
                   | None \<Rightarrow> Inr None)))"

section \<open>Python floats\<close>

text \<open>
  The exceptions of the arithmetic and of Pillow's resize, as values.
\<close>

datatype py_error = ZeroDivisionError | ValueError

text \<open>
  A Python float is an IEEE 754 binary64 number. A finite one is \<open>m * 2 ^ e\<close> for integers
  \<open>m\<close> and \<open>e\<close>, and is modelled as the pair \<open>(m, e)\<close>. Every operation returns the exact
  result rounded to the nearest number with a 53-bit significand, ties to even. The
  exponent is not bounded in the model: it agrees with binary64 as long as no result
  leaves the normal range \<open>2 ^ - 1022 \<dots> 2 ^ 1024\<close>, which holds for the pixel counts and
  byte counts that the program computes with.
\<close>

type_synonym pyfloat = "int \<times> int"

text \<open>\<^verbatim>\<open>n.bit_length()\<close> for \<open>n \<ge> 0\<close>.\<close>

function bit_length :: "int \<Rightarrow> int" where
  "bit_length n = (if n \<le> 0 then 0 else bit_length (n div 2) + 1)"
  by pat_completeness auto
termination
  by (relation "measure nat") auto

declare bit_length.simps [simp del]

text \<open>
  The integer nearest to \<open>num / den\<close> (for \<open>den > 0\<close>), the even one of two equally near.
\<close>

definition round_half_even :: "int \<Rightarrow> int \<Rightarrow> int" where
  "round_half_even num den =
     (let d = num div den; r = num mod den
      in if 2 * r < den then d
         else if den < 2 * r then d + 1
         else if even d then d else d + 1)"

text \<open>
  The float nearest to \<open>p / q\<close> (for \<open>q > 0\<close>): the exponent \<open>e'\<close> is chosen so that
  \<open>|p / q| / 2 ^ e'\<close> lies between \<open>2 ^ 52\<close> and \<open>2 ^ 53\<close>, and that quotient is rounded to
  an integer.
\<close>

definition round_frac :: "int \<Rightarrow> int \<Rightarrow> pyfloat" where
  "round_frac p q =
     (if p = 0 then (0, 0)
      else
        let a = \<bar>p\<bar>;
            e = bit_length a - bit_length q - 53;
            num = (if e < 0 then a * 2 ^ nat (- e) else a);
            den = (if e < 0 then q else q * 2 ^ nat e);
            e' = (if 2 ^ 53 * den \<le> num then e + 1 else e);
            den' = (if 2 ^ 53 * den \<le> num then 2 * den else den)
        in (sgn p * round_half_even num den', e'))"

text \<open>The float nearest to \<open>m * 2 ^ e\<close>.\<close>

definition round_dyadic :: "int \<Rightarrow> int \<Rightarrow> pyfloat" where
  "round_dyadic m e = (if e < 0 then round_frac m (2 ^ nat (- e)) else round_frac (m * 2 ^ nat e) 1)"

text \<open>
  \<^verbatim>\<open>float(n)\<close>, the conversion that \<^verbatim>\<open>int * float\<close> and \<^verbatim>\<open>int - float\<close> apply to the integer
  operand.
\<close>

definition float_of_int :: "int \<Rightarrow> pyfloat" where
  "float_of_int n = round_frac n 1"

text \<open>
  \<^verbatim>\<open>a / b\<close> for integers: the correctly rounded quotient; a zero divisor raises.
\<close>

definition py_truediv :: "int \<Rightarrow> int \<Rightarrow> py_error + pyfloat" where
  "py_truediv a b =
     (if b = 0 then Inl ZeroDivisionError else Inr (round_frac (a * sgn b) \<bar>b\<bar>))"

text \<open>\<^verbatim>\<open>x * y\<close> and \<^verbatim>\<open>x - y\<close> for floats: the exact result, rounded.\<close>

definition float_mul :: "pyfloat \<Rightarrow> pyfloat \<Rightarrow> pyfloat" where
  "float_mul x y = round_dyadic (fst x * fst y) (snd x + snd y)"

definition float_sub :: "pyfloat \<Rightarrow> pyfloat \<Rightarrow> pyfloat" where
  "float_sub x y =
     (let e = min (snd x) (snd y)
      in round_dyadic (fst x * 2 ^ nat (snd x - e) - fst y * 2 ^ nat (snd y - e)) e)"

text \<open>\<^verbatim>\<open>int(x)\<close> for a float: truncation toward zero.\<close>

definition py_int :: "pyfloat \<Rightarrow> int" where
  "py_int x =
     (if 0 \<le> snd x then fst x * 2 ^ nat (snd x)
      else sgn (fst x) * (\<bar>fst x\<bar> div 2 ^ nat (- snd x)))"

section \<open>Image transcoder\<close>

text \<open>
  \<^verbatim>\<open>img.resize((new_width, new_height), ...)\<close>: Pillow raises \<^verbatim>\<open>ValueError\<close> for a side of 0
  or less; otherwise the image gets the requested size.
\<close>

definition img_resize :: "int \<times> int \<Rightarrow> py_error + int \<times> int" where
  "img_resize dims = (if fst dims \<le> 0 \<or> snd dims \<le> 0 then Inl ValueError else Inr dims)"

text \<open>
  The resize step of \<^verbatim>\<open>convert_to_webp\<close>: from the configured maximum and the width and
  height of the opened image to the width and height of the image that is saved, or to
  the exception that the division or the resize raises.
\<close>

definition resize_dims :: "int \<Rightarrow> int \<Rightarrow> int \<Rightarrow> py_error + int \<times> int" where
  "resize_dims max_width width height =
     (if max width height > max_width then
        (case (if width > height then
                 (case py_truediv max_width width of
                    Inl err \<Rightarrow> Inl err
                  | Inr q \<Rightarrow> Inr (max_width, py_int (float_mul (float_of_int height) q)))
               else
                 (case py_truediv max_width height of
                    Inl err \<Rightarrow> Inl err
                  | Inr q \<Rightarrow> Inr (py_int (float_mul (float_of_int width) q), max_width))) of
           Inl err \<Rightarrow> Inl err
         | Inr new_size \<Rightarrow> img_resize new_size)
      else Inr (width, height))"

text \<open>
  The percentage in \<^verbatim>\<open>process_image\<close>:
  \<^verbatim>\<open>int((1 - new_size / orig_size) * 100) if orig_size > 0 else 0\<close>.
\<close>

definition compression :: "int \<Rightarrow> int \<Rightarrow> py_error + int" where
  "compression orig_size new_size =
     (if orig_size > 0 then
        (case py_truediv new_size orig_size of
           Inl err \<Rightarrow> Inl err
         | Inr q \<Rightarrow> Inr (py_int (float_mul (float_sub (float_of_int 1) q) (float_of_int 100))))
      else Inr 0)"

text \<open>
  \<^verbatim>\<open>process_image\<close>. The codec (Pillow opening, converting and saving one image) is a
  parameter: for a source path and an output name it either raises, with the text of the
  exception, or gives the byte sizes \<^verbatim>\<open>(original_size, new_size)\<close> that \<^verbatim>\<open>convert_to_webp\<close>
  returns. Every exception inside the \<^verbatim>\<open>try\<close> block becomes a failed result. The action
  label is \<^verbatim>\<open>'<TYPE> -> WebP'\<close> with the type in capitals, except for \<^verbatim>\<open>webp\<close>, which has a
  label of its own; the default of \<^verbatim>\<open>format_map.get\<close> calls \<^verbatim>\<open>file_type.upper()\<close>, which
  raises on \<^verbatim>\<open>None\<close>.
\<close>

datatype action = Converted string | Optimised

definition action_of :: "string \<Rightarrow> action" where
  "action_of file_type = (if file_type = ''webp'' then Optimised else Converted (upper file_type))"

datatype image_result =
    ImageOk string string action nat nat int
  | ImageFailed string string

fun error_text :: "py_error \<Rightarrow> string" where
  "error_text ZeroDivisionError = ''division by zero''"
| "error_text ValueError = ''height and width must be > 0''"

definition attribute_error :: string where
  "attribute_error =
     CHR 0x27 # ''NoneType'' @ CHR 0x27 # '' object has no attribute '' @ CHR 0x27 # ''upper''
       @ [CHR 0x27]"

type_synonym codec = "att_path \<Rightarrow> string \<Rightarrow> string + nat \<times> nat"

definition process_image :: "codec \<Rightarrow> att_path \<Rightarrow> string \<Rightarrow> string option \<Rightarrow> image_result" where
  "process_image convert_to_webp input_path output_name file_type =
     (case convert_to_webp input_path output_name of
        Inl e \<Rightarrow> ImageFailed (file_name input_path) e
      | Inr (orig_size, new_size) \<Rightarrow>
          (case file_type of
             None \<Rightarrow> ImageFailed (file_name input_path) attribute_error
           | Some ft \<Rightarrow>
               (case compression (int orig_size) (int new_size) of
                  Inl err \<Rightarrow> ImageFailed (file_name input_path) (error_text err)
                | Inr c \<Rightarrow>
                    ImageOk (file_name input_path) output_name (action_of ft)
                      orig_size new_size c)))"

section \<open>Post processor\<close>

text \<open>
  The post directory as \<^verbatim>\<open>process_post\<close> reads it: its path as \<^verbatim>\<open>main\<close> passes it, whether
  it exists and is a directory, whether \<^verbatim>\<open>index.md\<close> exists in it, the files that
  \<^verbatim>\<open>glob('*.md')\<close> yields, in its order, each with what opening and reading it as UTF-8
  text gives (the text that \<^verbatim>\<open>f.read()\<close> returns, or the exception raised; a name that is
  not listed cannot be opened), and the \<^verbatim>\<open>Attachments\<close> entry: absent; a directory
  that is listed and searched without error, with its listing; or present but not such a
  directory (a file, or a directory without the permissions), where \<^verbatim>\<open>iterdir()\<close>,
  \<^verbatim>\<open>exists()\<close> or \<^verbatim>\<open>is_file()\<close> raises an \<^verbatim>\<open>OSError\<close>.
\<close>

datatype attachments = Absent | NotListable | Listing listing

record post_dir =
  pd_path :: string
  pd_exists :: bool
  pd_is_dir :: bool
  index_md_exists :: bool
  md_files :: "(string \<times> (exception + string)) list"
  attachments :: attachments

text \<open>\<^verbatim>\<open>find_markdown_file\<close>: \<^verbatim>\<open>index.md\<close> when it exists, else the first \<^verbatim>\<open>*.md\<close> file.\<close>

definition find_markdown_file :: "post_dir \<Rightarrow> string option" where
  "find_markdown_file source_dir =
     (if index_md_exists source_dir then Some ''index.md''
      else (case md_files source_dir of [] \<Rightarrow> None | f # fs \<Rightarrow> Some (fst f)))"

text \<open>
  \<^verbatim>\<open>open(markdown_file, 'r', encoding='utf-8')\<close> and \<^verbatim>\<open>f.read()\<close>.
\<close>

definition read_text :: "post_dir \<Rightarrow> string \<Rightarrow> exception + string" where
  "read_text source_dir name =
     (case map_of (md_files source_dir) name of Some content \<Rightarrow> content | None \<Rightarrow> Inl OSError)"

text \<open>\<^verbatim>\<open>validate_source_directory\<close>, with the message as a value.\<close>

datatype validation = NoDirectory | NotDirectory | NoMarkdown | NoAttachments | Valid

definition validate_source_directory :: "post_dir \<Rightarrow> bool \<times> validation" where
  "validate_source_directory source_dir =
     (if \<not> pd_exists source_dir then (False, NoDirectory)
      else if \<not> pd_is_dir source_dir then (False, NotDirectory)
      else if find_markdown_file source_dir = None then (False, NoMarkdown)
      else if attachments source_dir = Absent then (False, NoAttachments)
      else (True, Valid))"

text \<open>
  The planning loop of \<^verbatim>\<open>process_post\<close>. Its state is the five collections the loop
  appends to; one step handles one reference \<^verbatim>\<open>(idx, (full_match, alt, path))\<close> of
  \<^verbatim>\<open>enumerate(image_refs, start=1)\<close>. An exception of the resolver ends the loop and
  leaves \<^verbatim>\<open>process_post\<close>. The messages of \<^verbatim>\<open>verbose\<close> in the loop hold the filename of
  the reference, which is text of the markdown file.
\<close>

type_synonym image_ref = "string \<times> string \<times> string"

text \<open>
  The first statements of the planning loop:
  \<^verbatim>\<open>filename = Path(path).name\<close>, then
  \<^verbatim>\<open>if filename.startswith('Attachments/'): filename = filename.replace('Attachments/', '')\<close>.
\<close>

definition resolver_filename :: "string \<Rightarrow> string" where
  "resolver_filename path =
     (let filename = path_name path
      in if startswith filename ''Attachments/''
         then str_replace ''Attachments/'' [] filename
         else filename)"

record plan_state =
  files_to_process :: "(att_path \<times> string \<times> nat) list"
  processed_files :: "string set"
  missing_files :: "string list"
  skipped_videos :: "string list"
  unknown_types :: "string list"

definition plan_init :: plan_state where
  "plan_init = \<lparr>files_to_process = [], processed_files = {}, missing_files = [],
                 skipped_videos = [], unknown_types = []\<rparr>"

definition plan_step ::
  "listing \<Rightarrow> bool \<Rightarrow> plan_state \<Rightarrow> nat \<times> image_ref \<Rightarrow> exception + plan_state" where
  "plan_step dir no_rename st r =
     (case r of (idx, full_match, alt, path) \<Rightarrow>
        let filename = resolver_filename path
        in case find_file_by_basename dir filename of
             Inl err \<Rightarrow> Inl err
           | Inr None \<Rightarrow> Inr (st\<lparr>missing_files := missing_files st @ [filename]\<rparr>)
           | Inr (Some file_path) \<Rightarrow>
               let file_type = get_file_type (file_name file_path)
               in if file_type = Some ''video''
                  then Inr (st\<lparr>skipped_videos := skipped_videos st @ [filename]\<rparr>)
                  else if file_type = None
                  then Inr (st\<lparr>unknown_types := unknown_types st @ [filename]\<rparr>)
                  else
                    let new_name = (if no_rename then name_stem (path_name filename)
                                    else ''img_'' @ fmt_02d idx);
                        new_ext = ''.webp''
                    in Inr (st\<lparr>files_to_process :=
                                 files_to_process st @ [(file_path, new_name @ new_ext, idx)],
                               processed_files :=
                                 insert (file_name file_path) (processed_files st)\<rparr>))"

fun plan_loop ::
  "listing \<Rightarrow> bool \<Rightarrow> plan_state \<Rightarrow> (nat \<times> image_ref) list \<Rightarrow> exception + plan_state" where
  "plan_loop dir no_rename st [] = Inr st"
| "plan_loop dir no_rename st (r # rs) =
     (case plan_step dir no_rename st r of
        Inl err \<Rightarrow> Inl err
      | Inr st' \<Rightarrow> plan_loop dir no_rename st' rs)"

definition plan_references :: "listing \<Rightarrow> bool \<Rightarrow> image_ref list \<Rightarrow> exception + plan_state" where
  "plan_references dir no_rename image_refs =
     plan_loop dir no_rename plan_init (enumerate 1 image_refs)"

text \<open>
  \<^verbatim>\<open>all_files = set(f.name for f in attachments_dir.iterdir() if f.is_file())\<close> and
  \<^verbatim>\<open>unused_files = list(all_files - processed_files)\<close>, kept as a set.
\<close>

definition all_files :: "listing \<Rightarrow> string set" where
  "all_files dir = set (map fst (filter (\<lambda>(name, kind). kind = File) dir))"

definition unused_files :: "listing \<Rightarrow> plan_state \<Rightarrow> string set" where
  "unused_files dir st = all_files dir - processed_files st"

text \<open>
  The rewrite loop: \<^verbatim>\<open>zip(image_refs, files_to_process)\<close> pairs the references with the
  plan entries by position, and each pair replaces every occurrence of the reference's
  matched text.
\<close>

definition rewrite_markdown ::
  "string \<Rightarrow> image_ref list \<Rightarrow> (att_path \<times> string \<times> nat) list \<Rightarrow> string" where
  "rewrite_markdown markdown_content image_refs plan =
     foldl (\<lambda>new_markdown (r, e).
              case r of (full_match, alt, old_path) \<Rightarrow>
              case e of (file_path, new_name, idx) \<Rightarrow>
                str_replace full_match (''!['' @ alt @ '']('' @ new_name @ '')'') new_markdown)
       markdown_content (zip image_refs plan)"

text \<open>
  What a run does, in order. On the filesystem: creating a directory (with its parents,
  an existing directory being accepted), transcoding a source into a file of the output
  directory, writing the markdown file (directory, name, text), copying a file (from
  directory, to directory, name). Directories are the resolved paths that \<^verbatim>\<open>main\<close> passes,
  so two of them are the same directory when they are equal. On standard output: a
  message that holds a name or a path taken from the filesystem or from the command line
  (\<open>Print\<close>, with that text) and a row of the dry-run table (\<open>PrintRow\<close>, with the source
  name and the output name). Messages made of fixed text, numbers and text of the
  markdown file are not events: standard output is taken to encode the messages of the
  program itself, which hold Cyrillic letters and emoji, and the text read from the
  markdown file is valid. A name that is not valid UTF-8 reaches Python with surrogate
  escapes, which a strict standard output does not encode.
\<close>

datatype event =
    Mkdir string
  | Transcode att_path string string
  | WriteMarkdown string string string
  | CopyFile string string string
  | Print string
  | PrintRow string string

text \<open>
  Whether a step raises, and what. The environment may refuse any creation, write, copy
  or message (a read-only directory, a file where a directory is wanted, a full disk, a
  name that standard output does not encode): \<open>refused\<close> tells which. \<^verbatim>\<open>shutil.copy2\<close> of a
  file onto itself raises \<^verbatim>\<open>SameFileError\<close>. A transcode never raises here:
  \<^verbatim>\<open>process_image\<close> catches what the codec raises. Nothing in \<^verbatim>\<open>process_post\<close> or \<^verbatim>\<open>main\<close>
  catches the exception of a step.
\<close>

definition raises :: "(event \<Rightarrow> bool) \<Rightarrow> event \<Rightarrow> bool" where
  "raises refused ev =
     (case ev of
        Transcode file_path d new_name \<Rightarrow> False
      | CopyFile src dst name \<Rightarrow> src = dst \<or> refused ev
      | _ \<Rightarrow> refused ev)"

definition raised :: "event \<Rightarrow> exception" where
  "raised ev =
     (case ev of
        Print s \<Rightarrow> UnicodeEncodeError
      | PrintRow src new_name \<Rightarrow> UnicodeEncodeError
      | _ \<Rightarrow> OSError)"

text \<open>
  The steps that are carried out, up to the first that raises, and the exception of
  that one.
\<close>

fun perform :: "(event \<Rightarrow> bool) \<Rightarrow> event list \<Rightarrow> event list \<times> exception option" where
  "perform refused [] = ([], None)"
| "perform refused (ev # evs) =
     (if raises refused ev then ([], Some (raised ev))
      else (case perform refused evs of (done, exn) \<Rightarrow> (ev # done, exn)))"

text \<open>
  Among the steps carried out: those on the filesystem, the rows of the dry-run table,
  and the sources and output names handed to \<^verbatim>\<open>process_image\<close>.
\<close>

fun writes :: "event list \<Rightarrow> event list" where
  "writes [] = []"
| "writes (Print s # evs) = writes evs"
| "writes (PrintRow src new_name # evs) = writes evs"
| "writes (ev # evs) = ev # writes evs"

fun rows :: "event list \<Rightarrow> (string \<times> string) list" where
  "rows [] = []"
| "rows (PrintRow src new_name # evs) = (src, new_name) # rows evs"
| "rows (ev # evs) = rows evs"

fun transcoded :: "event list \<Rightarrow> (att_path \<times> string) list" where
  "transcoded [] = []"
| "transcoded (Transcode file_path d new_name # evs) = (file_path, new_name) # transcoded evs"
| "transcoded (ev # evs) = transcoded evs"

text \<open>
  A run ends by returning its success flag or by raising; it leaves the filesystem events
  carried out, the rows of the dry-run table that were printed, the results of
  \<^verbatim>\<open>process_image\<close> and the two byte totals. The parameters \<^verbatim>\<open>max_width\<close> and \<^verbatim>\<open>quality\<close> reach
  the codec only. \<open>output_exists\<close> answers \<^verbatim>\<open>output_file.exists()\<close> of the publish step.
\<close>

record run =
  outcome :: "exception + bool"
  events :: "event list"
  preview :: "(string \<times> string) list"
  image_results :: "image_result list"
  total_original_size :: nat
  total_new_size :: nat

definition original_size :: "image_result \<Rightarrow> nat" where
  "original_size r = (case r of ImageOk i out a orig new c \<Rightarrow> orig | ImageFailed i e \<Rightarrow> 0)"

definition new_size :: "image_result \<Rightarrow> nat" where
  "new_size r = (case r of ImageOk i out a orig new c \<Rightarrow> new | ImageFailed i e \<Rightarrow> 0)"

text \<open>A run that ends before anything is written or printed in the table.\<close>

definition ended :: "exception + bool \<Rightarrow> run" where
  "ended how = \<lparr>outcome = how, events = [], preview = [], image_results = [],
                 total_original_size = 0, total_new_size = 0\<rparr>"

text \<open>
  The steps of the dry-run branch: the rows of the table, then the output directory and,
  when given, the publish directory.
\<close>

definition dry_run_steps ::
  "(att_path \<times> string \<times> nat) list \<Rightarrow> string \<Rightarrow> string option \<Rightarrow> event list" where
  "dry_run_steps plan output_dir hugo_path =
     map (\<lambda>(file_path, new_name, idx). PrintRow (file_name file_path) new_name) plan
     @ [Print output_dir]
     @ (case hugo_path of None \<Rightarrow> [] | Some hugo \<Rightarrow> [Print hugo])"

text \<open>
  The steps of one round of the transcode loop: the message of \<^verbatim>\<open>verbose\<close> with the source
  name, the call of \<^verbatim>\<open>process_image\<close>, and, for a failed result, the message with the
  source name and the text of the error (the message of a success holds the output name
  and sizes only).
\<close>

definition entry_steps ::
  "codec \<Rightarrow> bool \<Rightarrow> string \<Rightarrow> att_path \<times> string \<times> nat \<Rightarrow> event list" where
  "entry_steps convert_to_webp verbose output_dir e =
     (case e of (file_path, new_name, idx) \<Rightarrow>
        (if verbose then [Print (file_name file_path)] else [])
        @ [Transcode file_path output_dir new_name]
        @ (case process_image convert_to_webp file_path new_name
                  (get_file_type (file_name file_path)) of
             ImageFailed input err \<Rightarrow> [Print (input @ '': '' @ err)]
           | ImageOk input out a orig new c \<Rightarrow> []))"

text \<open>
  The steps of the publish block: the message with the publish directory, the directory,
  the copy of the markdown file, the copies of the outputs that exist, and the closing
  message.
\<close>

definition publish_steps ::
  "(string \<Rightarrow> bool) \<Rightarrow> (att_path \<times> string \<times> nat) list \<Rightarrow> string \<Rightarrow> string
     \<Rightarrow> string option \<Rightarrow> event list" where
  "publish_steps output_exists plan markdown_file output_dir hugo_path =
     (case hugo_path of
        None \<Rightarrow> []
      | Some hugo \<Rightarrow>
          [Print hugo, Mkdir hugo, CopyFile output_dir hugo markdown_file]
          @ map (\<lambda>(file_path, new_name, idx). CopyFile output_dir hugo new_name)
              (filter (\<lambda>(file_path, new_name, idx). output_exists new_name) plan)
          @ [Print hugo])"

text \<open>
  The steps of the statistics block that hold names of the filesystem: the unused files.
  The program prints them sorted; they are taken in the order of the listing here, which
  leaves the run the same, as no other step follows.
\<close>

definition stats_steps :: "bool \<Rightarrow> listing \<Rightarrow> plan_state \<Rightarrow> event list" where
  "stats_steps stats dir st =
     (if stats
      then map Print (filter (\<lambda>name. name \<in> unused_files dir st)
                        (map fst (filter (\<lambda>(name, kind). kind = File) dir)))
      else [])"

text \<open>
  \<^verbatim>\<open>process_post\<close>. Validation comes first, with its message, which holds the path of the
  post directory when validation fails; then the message with the name of the markdown
  file; then the markdown is read; then the planning loop and the listing of
  \<^verbatim>\<open>Attachments\<close>; then the dry-run branch, or the output directory, the transcodes, the
  markdown, the publish block and the statistics.
\<close>

definition process_post ::
  "codec \<Rightarrow> (string \<Rightarrow> bool) \<Rightarrow> (event \<Rightarrow> bool) \<Rightarrow> post_dir \<Rightarrow> string \<Rightarrow> string option
     \<Rightarrow> bool \<Rightarrow> bool \<Rightarrow> bool \<Rightarrow> bool \<Rightarrow> run" where
  "process_post convert_to_webp output_exists refused source_dir output_dir hugo_path
       dry_run no_rename verbose stats =
     (if \<not> fst (validate_source_directory source_dir)
      then (if raises refused (Print (pd_path source_dir))
            then ended (Inl UnicodeEncodeError) else ended (Inr False))
      else
        let markdown_file = the (find_markdown_file source_dir)
        in if raises refused (Print markdown_file) then ended (Inl UnicodeEncodeError)
           else
             case read_text source_dir markdown_file of
               Inl err \<Rightarrow> ended (Inl err)
             | Inr markdown_content \<Rightarrow>
                 (case attachments source_dir of
                    Listing dir \<Rightarrow>
                      let image_refs = extract_image_references markdown_content
                      in (case plan_references dir no_rename image_refs of
                            Inl err \<Rightarrow> ended (Inl err)
                          | Inr st \<Rightarrow>
                              let plan = files_to_process st;
                                  new_markdown =
                                    rewrite_markdown markdown_content image_refs plan;
                                  steps =
                                    (if dry_run
                                     then dry_run_steps plan output_dir hugo_path
                                     else [Mkdir output_dir, Print output_dir]
                                          @ concat (map (entry_steps convert_to_webp verbose
                                                           output_dir) plan)
                                          @ [WriteMarkdown output_dir markdown_file new_markdown,
                                             Print markdown_file]
                                          @ publish_steps output_exists plan markdown_file
                                              output_dir hugo_path
                                          @ stats_steps stats dir st);
                                  (done, exn) = perform refused steps;
                                  results =
                                    map (\<lambda>(file_path, new_name).
                                           process_image convert_to_webp file_path new_name
                                             (get_file_type (file_name file_path)))
                                      (transcoded done)
                              in \<lparr>outcome = (case exn of None \<Rightarrow> Inr True | Some e \<Rightarrow> Inl e),
                                  events = writes done,
                                  preview = rows done,
                                  image_results = results,
                                  total_original_size = sum_list (map original_size results),
                                  total_new_size = sum_list (map new_size results)\<rparr>)
                  | _ \<Rightarrow> ended (Inl OSError)))"


chapter \<open>Notions used in the statements\<close>

text \<open>
  The text of an image link, and what the pattern asks of its two parts.
\<close>

definition md_link :: "string \<Rightarrow> string \<Rightarrow> string" where
  "md_link alt path = ''!['' @ alt @ '']('' @ path @ '')''"

definition well_formed :: "string \<Rightarrow> string \<Rightarrow> bool" where
  "well_formed alt path \<longleftrightarrow> CHR '']'' \<notin> set alt \<and> path \<noteq> [] \<and> CHR '')'' \<notin> set path"

text \<open>
  An occurrence of a well-formed image link in a text, at a given offset.
\<close>

definition link_at :: "string \<Rightarrow> nat \<Rightarrow> string \<Rightarrow> string \<Rightarrow> bool" where
  "link_at s i alt path \<longleftrightarrow>
     well_formed alt path \<and> i \<le> length s \<and> startswith (drop i s) (md_link alt path)"

text \<open>
  The same scan, recording where each match starts (what \<^verbatim>\<open>re.finditer\<close> reports as
  \<^verbatim>\<open>m.start()\<close>); used to state what \<^verbatim>\<open>re.findall\<close> returns.
\<close>

function scan_from :: "nat \<Rightarrow> string \<Rightarrow> (nat \<times> string \<times> string) list" where
  "scan_from i s =
     (if s = [] then []
      else (case match_image s of
              None \<Rightarrow> scan_from (Suc i) (tl s)
            | Some (alt, path, rest) \<Rightarrow>
                (i, alt, path) # scan_from (i + length (md_link alt path)) rest))"
  by pat_completeness auto
termination
  by (relation "measure (\<lambda>(i, s). length s)") (auto simp: match_image_shorter)

declare scan_from.simps [simp del]

text \<open>One match ends before the next starts.\<close>

definition before :: "nat \<times> string \<times> string \<Rightarrow> nat \<times> string \<times> string \<Rightarrow> bool" where
  "before m m' \<longleftrightarrow> fst m + length (md_link (fst (snd m)) (snd (snd m))) \<le> fst m'"

text \<open>
  A filename proper: not empty, not \<^verbatim>\<open>.\<close> or \<^verbatim>\<open>..\<close>, and without \<^verbatim>\<open>/\<close>.
\<close>

definition proper_name :: "string \<Rightarrow> bool" where
  "proper_name f \<longleftrightarrow> f \<noteq> [] \<and> f \<noteq> ''.'' \<and> f \<noteq> ''..'' \<and> CHR ''/'' \<notin> set f"

text \<open>
  An entry of that name exists: it is listed and is not a dangling link. A regular file
  is the first of the listing with a property when no regular file before it has it.
\<close>

definition exists_in :: "listing \<Rightarrow> string \<Rightarrow> bool" where
  "exists_in dir f \<longleftrightarrow> (\<exists>kind. (f, kind) \<in> set dir \<and> kind \<noteq> Dangling)"

definition first_file :: "listing \<Rightarrow> (string \<Rightarrow> bool) \<Rightarrow> string \<Rightarrow> bool" where
  "first_file dir P n \<longleftrightarrow>
     (\<exists>i < length dir. dir ! i = (n, File) \<and> P n
        \<and> (\<forall>j < i. snd (dir ! j) = File \<longrightarrow> \<not> P (fst (dir ! j))))"

text \<open>The number that a string of decimal digits denotes.\<close>

definition digit_value :: "char \<Rightarrow> nat" where
  "digit_value c = of_char c - 48"

definition decimal :: "string \<Rightarrow> nat" where
  "decimal s = foldl (\<lambda>a c. 10 * a + digit_value c) 0 s"

definition is_digit :: "char \<Rightarrow> bool" where
  "is_digit c \<longleftrightarrow> 48 \<le> (of_char c :: nat) \<and> (of_char c :: nat) \<le> 57"

text \<open>
  A reference resolves when the resolver finds a file for it whose type is recognised and
  is not video; \<open>plan_entry\<close> is the plan entry the loop then appends.
\<close>

definition resolves :: "listing \<Rightarrow> string \<Rightarrow> bool" where
  "resolves dir path \<longleftrightarrow>
     (case find_file_by_basename dir (resolver_filename path) of
        Inr (Some file_path) \<Rightarrow>
          get_file_type (file_name file_path) \<noteq> Some ''video''
          \<and> get_file_type (file_name file_path) \<noteq> None
      | _ \<Rightarrow> False)"

definition plan_entry :: "listing \<Rightarrow> bool \<Rightarrow> nat \<times> image_ref \<Rightarrow> att_path \<times> string \<times> nat" where
  "plan_entry dir no_rename r =
     (case r of (idx, full_match, alt, path) \<Rightarrow>
        (the (projr (find_file_by_basename dir (resolver_filename path))),
         (if no_rename then name_stem (path_name path) else ''img_'' @ fmt_02d idx) @ ''.webp'',
         idx))"


text \<open>The real number a float stands for.\<close>

definition valof :: "pyfloat \<Rightarrow> real" where
  "valof x = of_int (fst x) * 2 powr of_int (snd x)"


chapter \<open>Properties\<close>

section \<open>The filename handed to the resolver\<close>

lemma startswith_iff: "startswith s p \<longleftrightarrow> (\<exists>r. s = p @ r)"
  by (induction s p rule: startswith.induct) auto

lemma split_sep_nonempty: "split_sep sep s \<noteq> []"
  by (induction s) (auto split: list.splits)

lemma split_sep_no_sep: "x \<in> set (split_sep sep s) \<Longrightarrow> sep \<notin> set x"
proof (induction s arbitrary: x)
  case Nil
  then show ?case by simp
next
  case (Cons c cs)
  show ?case
  proof (cases "c = sep")
    case True
    with Cons show ?thesis by auto
  next
    case False
    obtain p ps where ps: "split_sep sep cs = p # ps"
      using split_sep_nonempty [of sep cs] by (cases "split_sep sep cs") auto
    with Cons.prems False have "x = c # p \<or> x \<in> set ps" by simp
    then show ?thesis
    proof
      assume "x = c # p"
      moreover have "sep \<notin> set p" using Cons.IH [of p] ps by simp
      ultimately show ?thesis using False by auto
    next
      assume "x \<in> set ps"
      then show ?thesis using Cons.IH [of x] ps by simp
    qed
  qed
qed

lemma path_name_no_slash: "CHR ''/'' \<notin> set (path_name p)"
proof (cases "path_parts p")
  case Nil
  then show ?thesis by (simp add: path_name_def)
next
  case (Cons x xs)
  then have "last (x # xs) \<in> set (path_parts p)"
    using last_in_set [of "x # xs"] by simp
  then have "last (x # xs) \<in> set (split_sep CHR ''/'' p)"
    by (simp add: path_parts_def)
  then have "CHR ''/'' \<notin> set (last (x # xs))"
    by (rule split_sep_no_sep)
  with Cons show ?thesis by (simp add: path_name_def)
qed

lemma path_name_not_attachments: "\<not> startswith (path_name path) ''Attachments/''"
proof
  assume "startswith (path_name path) ''Attachments/''"
  then obtain r where "path_name path = ''Attachments/'' @ r"
    by (auto simp: startswith_iff)
  then have "CHR ''/'' \<in> set (path_name path)" by simp
  then show False using path_name_no_slash [of path] by simp
qed

lemma resolver_filename_eq: "resolver_filename path = path_name path"
  by (simp add: resolver_filename_def path_name_not_attachments)

text \<open>
  C10. For every reference path, the filename handed to the resolver is the path's final
  component: that component holds no \<^verbatim>\<open>/\<close>, so it never starts with \<^verbatim>\<open>Attachments/\<close> and the
  branch that strips this prefix is never taken.
\<close>

theorem resolver_filename_is_basename:
  "resolver_filename path = path_name path
   \<and> CHR ''/'' \<notin> set (path_name path)
   \<and> \<not> startswith (path_name path) ''Attachments/''"
  by (simp add: resolver_filename_eq path_name_no_slash path_name_not_attachments)

theorem resolver_filename_is_basename_witness:
  "resolver_filename ''Attachments/photo.jpg'' = ''photo.jpg''
   \<and> path_name ''Attachments/photo.jpg'' = ''photo.jpg''"
  using resolver_filename_is_basename [of "''Attachments/photo.jpg''"]
  by (simp add: path_name_def path_parts_def)

section \<open>Markdown reference extraction\<close>

lemma takeWhile_stop: "x \<notin> set xs \<Longrightarrow> takeWhile (\<lambda>c. c \<noteq> x) (xs @ x # ys) = xs"
  by (induction xs) auto

lemma dropWhile_stop: "x \<notin> set xs \<Longrightarrow> dropWhile (\<lambda>c. c \<noteq> x) (xs @ x # ys) = x # ys"
  by (induction xs) auto

lemma takeWhile_no: "x \<notin> set (takeWhile (\<lambda>c. c \<noteq> x) xs)"
  using set_takeWhileD by fastforce

lemma match_image_link:
  assumes "well_formed alt path"
  shows "match_image (md_link alt path @ rest) = Some (alt, path, rest)"
  using assms
  by (simp add: match_image_def md_link_def well_formed_def takeWhile_stop dropWhile_stop Let_def)

lemma match_image_SomeD:
  assumes "match_image s = Some (alt, path, rest)"
  shows "s = md_link alt path @ rest \<and> well_formed alt path"
proof -
  define s1 where "s1 = drop 2 s"
  define s2 where "s2 = dropWhile (\<lambda>c. c \<noteq> CHR '']'') s1"
  define s3 where "s3 = drop 2 s2"
  define s4 where "s4 = dropWhile (\<lambda>c. c \<noteq> CHR '')'') s3"
  from assms have a: "startswith s ''![''"
    by (auto simp: match_image_def split: if_splits)
  with assms have b: "startswith s2 ''](''"
    by (auto simp: match_image_def Let_def s1_def s2_def split: if_splits)
  from assms a b have c: "takeWhile (\<lambda>c. c \<noteq> CHR '')'') s3 \<noteq> []" "startswith s4 '')''"
    and alt: "alt = takeWhile (\<lambda>c. c \<noteq> CHR '']'') s1"
    and path: "path = takeWhile (\<lambda>c. c \<noteq> CHR '')'') s3"
    and rest: "rest = drop 1 s4"
    by (auto simp: match_image_def Let_def s1_def s2_def s3_def s4_def split: if_splits)
  from a have 1: "s = ''!['' @ s1"
    by (auto simp: startswith_iff s1_def)
  have 2: "s1 = alt @ s2"
    by (simp add: alt s2_def)
  from b have 3: "s2 = '']('' @ s3"
    by (auto simp: startswith_iff s3_def)
  have 4: "s3 = path @ s4"
    by (simp add: path s4_def)
  from c(2) have 5: "s4 = '')'' @ rest"
    by (auto simp: startswith_iff rest)
  have "s = md_link alt path @ rest"
    using 1 2 3 4 5 by (simp add: md_link_def)
  moreover have "well_formed alt path"
    using c(1) by (simp add: well_formed_def alt path takeWhile_no)
  ultimately show ?thesis by simp
qed

lemma match_image_iff:
  "match_image s = Some (alt, path, rest) \<longleftrightarrow> s = md_link alt path @ rest \<and> well_formed alt path"
  using match_image_SomeD match_image_link by blast

lemma findall_scan: "findall_image s = map snd (scan_from i s)"
proof (induction i s rule: scan_from.induct)
  case (1 i s)
  show ?case
  proof (cases "s = []")
    case True
    then show ?thesis by (simp add: findall_image.simps scan_from.simps)
  next
    case False
    show ?thesis
    proof (cases "match_image s")
      case None
      with False 1(1) show ?thesis
        by (simp add: findall_image.simps [of s] scan_from.simps [of i s])
    next
      case (Some m)
      obtain alt path rest where m: "m = (alt, path, rest)" by (cases m)
      with False Some 1(2) show ?thesis
        by (simp add: findall_image.simps [of s] scan_from.simps [of i s])
    qed
  qed
qed

lemma link_at_0: "link_at s 0 alt path \<longleftrightarrow> (\<exists>rest. match_image s = Some (alt, path, rest))"
  by (auto simp: link_at_def match_image_iff startswith_iff)

lemma link_at_Suc: "link_at (c # cs) (Suc n) alt path \<longleftrightarrow> link_at cs n alt path"
  by (simp add: link_at_def)

lemma link_at_drop:
  "k \<le> n \<Longrightarrow> k \<le> length s \<Longrightarrow> link_at s n alt path \<longleftrightarrow> link_at (drop k s) (n - k) alt path"
  by (auto simp: link_at_def)

lemma scan_sound:
  "(j, alt, path) \<in> set (scan_from i s) \<Longrightarrow> i \<le> j \<and> link_at s (j - i) alt path"
proof (induction i s arbitrary: j alt path rule: scan_from.induct)
  case (1 i s)
  show ?case
  proof (cases "s = []")
    case True
    with 1(3) show ?thesis by (simp add: scan_from.simps)
  next
    case False
    then obtain c cs where s: "s = c # cs" by (cases s) auto
    show ?thesis
    proof (cases "match_image s")
      case None
      with False 1(3) have "(j, alt, path) \<in> set (scan_from (Suc i) (tl s))"
        by (simp add: scan_from.simps [of i s])
      from 1(1) [OF False None this] have "Suc i \<le> j" "link_at cs (j - Suc i) alt path"
        by (simp_all add: s)
      moreover from this have "j - i = Suc (j - Suc i)" by simp
      ultimately show ?thesis
        using link_at_Suc [of c cs "j - Suc i" alt path] by (simp add: s)
    next
      case (Some m)
      obtain a p r where m: "m = (a, p, r)" by (cases m)
      from Some m have sr: "s = md_link a p @ r" "well_formed a p"
        by (simp_all add: match_image_iff)
      from False Some m 1(3)
      consider "(j, alt, path) = (i, a, p)"
        | "(j, alt, path) \<in> set (scan_from (i + length (md_link a p)) r)"
        by (auto simp: scan_from.simps [of i s])
      then show ?thesis
      proof cases
        case 1
        then show ?thesis using Some m by (auto simp: link_at_0)
      next
        case 2
        from 1(2) [OF False Some m [symmetric] refl 2]
        have le: "i + length (md_link a p) \<le> j"
          and la: "link_at r (j - (i + length (md_link a p))) alt path"
          by simp_all
        have "link_at s (j - i) alt path"
          using link_at_drop [of "length (md_link a p)" "j - i" s alt path] le la sr
          by simp
        with le show ?thesis by simp
      qed
    qed
  qed
qed

lemma scan_sorted: "sorted_wrt before (scan_from i s)"
proof (induction i s rule: scan_from.induct)
  case (1 i s)
  show ?case
  proof (cases "s = []")
    case True
    then show ?thesis by (simp add: scan_from.simps)
  next
    case False
    show ?thesis
    proof (cases "match_image s")
      case None
      with False 1(1) show ?thesis by (simp add: scan_from.simps [of i s])
    next
      case (Some m)
      obtain a p r where m: "m = (a, p, r)" by (cases m)
      have "sorted_wrt before (scan_from (i + length (md_link a p)) r)"
        by (rule 1(2) [OF False Some m [symmetric] refl])
      moreover have "before (i, a, p) y" if "y \<in> set (scan_from (i + length (md_link a p)) r)" for y
      proof -
        obtain j a' p' where y: "y = (j, a', p')" by (cases y)
        with that scan_sound [of j a' p' "i + length (md_link a p)" r]
        show ?thesis by (simp add: before_def)
      qed
      ultimately show ?thesis
        using False Some m by (simp add: scan_from.simps [of i s])
    qed
  qed
qed

lemma link_at_Nil: "\<not> link_at [] n alt path"
  by (simp add: link_at_def md_link_def)

lemma scan_complete:
  "link_at s n alt path \<Longrightarrow>
   \<exists>m \<in> set (scan_from i s).
      fst m \<le> i + n \<and> i + n < fst m + length (md_link (fst (snd m)) (snd (snd m)))
      \<and> (fst m = i + n \<longrightarrow> snd m = (alt, path))"
proof (induction i s arbitrary: n rule: scan_from.induct)
  case (1 i s)
  show ?case
  proof (cases "s = []")
    case True
    with 1(3) show ?thesis by (simp add: link_at_Nil)
  next
    case False
    then obtain c cs where s: "s = c # cs" by (cases s) auto
    show ?thesis
    proof (cases "match_image s")
      case None
      have "n \<noteq> 0"
      proof
        assume "n = 0"
        with 1(3) have "link_at s 0 alt path" by simp
        with None show False by (simp add: link_at_0)
      qed
      then obtain n' where n: "n = Suc n'" by (cases n) auto
      with 1(3) have "link_at (tl s) n' alt path" by (simp add: s link_at_Suc)
      from 1(1) [OF False None this] show ?thesis
        using False None by (simp add: scan_from.simps [of i s] n)
    next
      case (Some m)
      obtain a p r where m: "m = (a, p, r)" by (cases m)
      from Some m have sr: "s = md_link a p @ r" "well_formed a p"
        by (simp_all add: match_image_iff)
      have sc: "scan_from i s = (i, a, p) # scan_from (i + length (md_link a p)) r"
        using False Some m by (simp add: scan_from.simps [of i s])
      show ?thesis
      proof (cases "n < length (md_link a p)")
        case True
        have "n = 0 \<longrightarrow> (a, p) = (alt, path)"
          using 1(3) Some m by (auto simp: link_at_0)
        with True show ?thesis by (simp add: sc)
      next
        case False
        then have le: "length (md_link a p) \<le> n" by simp
        have "link_at r (n - length (md_link a p)) alt path"
          using link_at_drop [of "length (md_link a p)" n s alt path] le 1(3) sr by simp
        from 1(2) [OF \<open>s \<noteq> []\<close> Some m [symmetric] refl this]
        obtain x where "x \<in> set (scan_from (i + length (md_link a p)) r)"
          and "fst x \<le> i + n" and "i + n < fst x + length (md_link (fst (snd x)) (snd (snd x)))"
          and "fst x = i + n \<longrightarrow> snd x = (alt, path)"
          using le by auto
        then show ?thesis by (auto simp: sc)
      qed
    qed
  qed
qed

lemma extract_empty: "extract_image_references [] = []"
  by (simp add: extract_image_references_def findall_image.simps)

lemma findall_link:
  assumes "well_formed alt path"
  shows "findall_image (md_link alt path @ rest) = (alt, path) # findall_image rest"
proof -
  have ne: "md_link alt path @ rest \<noteq> []" by (simp add: md_link_def)
  have m: "match_image (md_link alt path @ rest) = Some (alt, path, rest)"
    by (rule match_image_link [OF assms])
  show ?thesis
    by (subst findall_image.simps) (simp only: ne m if_False option.case prod.case)
qed

lemma extract_link:
  assumes "well_formed alt path"
  shows "extract_image_references (md_link alt path @ rest) =
           (md_link alt path, alt, path) # extract_image_references rest"
  unfolding extract_image_references_def findall_link [OF assms]
  by (simp add: md_link_def)

lemma extract_skip:
  assumes "\<And>alt path. \<not> link_at (c # cs) 0 alt path"
  shows "extract_image_references (c # cs) = extract_image_references cs"
proof -
  have "match_image (c # cs) = None"
  proof (cases "match_image (c # cs)")
    case (Some m)
    obtain a p r where "m = (a, p, r)" by (cases m)
    with Some have "link_at (c # cs) 0 a p" by (auto simp: link_at_0)
    with assms show ?thesis by simp
  qed simp
  then show ?thesis
    by (simp add: extract_image_references_def findall_image.simps [of "c # cs"])
qed

text \<open>
  C4 (amended). For every markdown text, extraction returns the occurrences of
  \<^verbatim>\<open>![alt](path)\<close> (alt without \<^verbatim>\<open>]\<close>, path non-empty and without \<^verbatim>\<open>)\<close>) that a scan from
  the left finds when it resumes after each match: the entries are occurrences of the
  text at increasing offsets that do not overlap, each entry reproduces its alt text and
  path, its full text is the matched text, and every occurrence of the text either is an
  entry or begins inside the matched text of one.
\<close>

theorem extract_leftmost_nonoverlapping:
  "\<exists>ms. extract_image_references s = map (\<lambda>(j, alt, path). (md_link alt path, alt, path)) ms
     \<and> sorted_wrt (\<lambda>(j, alt, path) (j', alt', path'). j + length (md_link alt path) \<le> j') ms
     \<and> (\<forall>(j, alt, path) \<in> set ms. link_at s j alt path)
     \<and> (\<forall>n alt path. link_at s n alt path \<longrightarrow>
           (\<exists>(j, alt', path') \<in> set ms.
               j \<le> n \<and> n < j + length (md_link alt' path')
               \<and> (j = n \<longrightarrow> alt' = alt \<and> path' = path)))"
proof -
  let ?ms = "scan_from 0 s"
  have 1: "extract_image_references s = map (\<lambda>(j, alt, path). (md_link alt path, alt, path)) ?ms"
    by (simp add: extract_image_references_def findall_scan [of s 0] md_link_def
        case_prod_unfold)
  have "(\<lambda>(j, alt, path) (j', alt', path'). j + length (md_link alt path) \<le> j') = before"
    by (auto simp: before_def fun_eq_iff)
  then have 2: "sorted_wrt (\<lambda>(j, alt, path) (j', alt', path'). j + length (md_link alt path) \<le> j') ?ms"
    using scan_sorted [of 0 s] by simp
  have 3: "\<forall>(j, alt, path) \<in> set ?ms. link_at s j alt path"
    using scan_sound [of _ _ _ 0 s] by auto
  have 4: "\<exists>(j, alt', path') \<in> set ?ms.
               j \<le> n \<and> n < j + length (md_link alt' path')
               \<and> (j = n \<longrightarrow> alt' = alt \<and> path' = path)"
    if "link_at s n alt path" for n alt path
  proof -
    from scan_complete [OF that, of 0] obtain m where "m \<in> set ?ms"
      and "fst m \<le> n" and "n < fst m + length (md_link (fst (snd m)) (snd (snd m)))"
      and "fst m = n \<longrightarrow> snd m = (alt, path)"
      by auto
    then show ?thesis
      by (intro bexI [of _ m]) (auto simp: case_prod_unfold)
  qed
  show ?thesis
    by (rule exI [of _ ?ms]) (intro conjI allI impI 1 2 3 4)
qed

text \<open>
  C4 as stated fails: in \<^verbatim>\<open>![a![b](c)\<close> the link \<^verbatim>\<open>![b](c)\<close> occurs at offset 3, and no
  entry reproduces it, since the match found at offset 0 covers it.
\<close>

theorem extract_every_occurrence_counterexample:
  "link_at ''![a![b](c)'' 3 ''b'' ''c''
   \<and> (md_link ''b'' ''c'', ''b'', ''c'') \<notin> set (extract_image_references ''![a![b](c)'')"
  by code_simp

theorem extract_leftmost_nonoverlapping_witness:
  "link_at ''![a![b](c)'' 3 ''b'' ''c''
   \<and> extract_image_references ''![a![b](c)'' = [(''![a![b](c)'', ''a![b'', ''c'')]
   \<and> (\<exists>ms. extract_image_references ''![a![b](c)'' =
               map (\<lambda>(j, alt, path). (md_link alt path, alt, path)) ms
         \<and> (\<exists>(j, alt', path') \<in> set ms. j \<le> 3 \<and> 3 < j + length (md_link alt' path')))"
proof -
  have l: "link_at ''![a![b](c)'' 3 ''b'' ''c''" by code_simp
  have e: "extract_image_references ''![a![b](c)'' = [(''![a![b](c)'', ''a![b'', ''c'')]"
    by code_simp
  from extract_leftmost_nonoverlapping [of "''![a![b](c)''"]
  obtain ms where a: "extract_image_references ''![a![b](c)'' =
               map (\<lambda>(j, alt, path). (md_link alt path, alt, path)) ms"
    and b: "\<forall>n alt path. link_at ''![a![b](c)'' n alt path \<longrightarrow>
           (\<exists>(j, alt', path') \<in> set ms.
               j \<le> n \<and> n < j + length (md_link alt' path')
               \<and> (j = n \<longrightarrow> alt' = alt \<and> path' = path))"
    by blast
  from b l have "\<exists>(j, alt', path') \<in> set ms.
               j \<le> 3 \<and> 3 < j + length (md_link alt' path')
               \<and> (j = 3 \<longrightarrow> alt' = ''b'' \<and> path' = ''c'')"
    by blast
  then have "\<exists>(j, alt', path') \<in> set ms. j \<le> 3 \<and> 3 < j + length (md_link alt' path')"
    by (auto simp: case_prod_unfold)
  with a l e show ?thesis by blast
qed


section \<open>Filename and type resolution\<close>



lemma contains_iff: "contains s needle \<longleftrightarrow> (\<exists>a b. s = a @ needle @ b)"
proof (induction s)
  case Nil
  then show ?case by auto
next
  case (Cons c cs)
  show ?case
  proof
    assume "contains (c # cs) needle"
    then consider "startswith (c # cs) needle" | "contains cs needle" by auto
    then show "\<exists>a b. c # cs = a @ needle @ b"
    proof cases
      case 1
      then obtain r where "c # cs = needle @ r" by (auto simp: startswith_iff)
      then have "c # cs = [] @ needle @ r" by simp
      then show ?thesis by blast
    next
      case 2
      with Cons obtain a b where "cs = a @ needle @ b" by auto
      then have "c # cs = (c # a) @ needle @ b" by simp
      then show ?thesis by blast
    qed
  next
    assume "\<exists>a b. c # cs = a @ needle @ b"
    then obtain a b where ab: "c # cs = a @ needle @ b" by auto
    show "contains (c # cs) needle"
    proof (cases a)
      case Nil
      with ab have "startswith (c # cs) needle" by (auto simp: startswith_iff)
      then show ?thesis by simp
    next
      case (Cons x xs)
      with ab have "cs = xs @ needle @ b" by simp
      with Cons.IH have "contains cs needle" by blast
      then show ?thesis by simp
    qed
  qed
qed

lemma split_sep_none: "sep \<notin> set s \<Longrightarrow> split_sep sep s = [s]"
  by (induction s) auto

lemma path_name_proper: "proper_name f \<Longrightarrow> path_name f = f"
  by (simp add: proper_name_def path_name_def path_parts_def split_sep_none)

lemma exists_in_iff: "exists_in dir f \<longleftrightarrow> (f, File) \<in> set dir \<or> (f, Other) \<in> set dir"
proof
  assume "exists_in dir f"
  then obtain kind where "(f, kind) \<in> set dir" "kind \<noteq> Dangling"
    by (auto simp: exists_in_def)
  then show "(f, File) \<in> set dir \<or> (f, Other) \<in> set dir" by (cases kind) auto
next
  assume "(f, File) \<in> set dir \<or> (f, Other) \<in> set dir"
  then show "exists_in dir f" by (auto simp: exists_in_def)
qed

lemma exact_match_proper:
  "proper_name f \<Longrightarrow> length f \<le> name_max \<Longrightarrow>
   exact_match dir f = Inr (if exists_in dir f then Some (Entry f) else None)"
  by (simp add: exact_match_def proper_name_def exists_in_iff)

lemma find_file_SomeD:
  assumes "find (\<lambda>(name, kind). kind = File \<and> P name) dir = Some x"
  shows "snd x = File \<and> (fst x, File) \<in> set dir \<and> first_file dir P (fst x)"
proof -
  from assms obtain i where i: "i < length dir" "dir ! i = x"
    "case x of (name, kind) \<Rightarrow> kind = File \<and> P name"
    "\<forall>j<i. \<not> (case dir ! j of (name, kind) \<Rightarrow> kind = File \<and> P name)"
    by (auto simp: find_Some_iff)
  from i(3) have k: "snd x = File" and p: "P (fst x)" by (auto simp: case_prod_unfold)
  from k have x: "x = (fst x, File)" by (cases x) simp
  from i(1,2) have "x \<in> set dir" by auto
  with x have m: "(fst x, File) \<in> set dir" by simp
  from i(4) have "\<forall>j<i. snd (dir ! j) = File \<longrightarrow> \<not> P (fst (dir ! j))"
    by (auto simp: case_prod_unfold)
  with i(1,2) x p have "first_file dir P (fst x)"
    unfolding first_file_def by metis
  with k m show ?thesis by simp
qed

lemma find_file_None_iff:
  "find (\<lambda>(name, kind). kind = File \<and> P name) dir = None \<longleftrightarrow>
   (\<forall>g. (g, File) \<in> set dir \<longrightarrow> \<not> P g)"
  by (auto simp: find_None_iff)

lemma first_file_listed: "first_file dir P n \<Longrightarrow> (n, File) \<in> set dir \<and> P n"
  by (auto simp: first_file_def dest: nth_mem)

lemma find_file_long:
  "name_max < length f \<Longrightarrow> CHR 0x00 \<notin> set f \<Longrightarrow> find_file_by_basename dir f = Inl OSError"
  by (simp add: find_file_by_basename_def exact_match_def)


text \<open>
  C5 (amended). For a requested filename that is a proper name (not empty, not \<^verbatim>\<open>.\<close> or \<^verbatim>\<open>..\<close>,
  without \<^verbatim>\<open>/\<close>) of at most 255 bytes, resolution returns the entry of that exact name
  when it exists (an entry of any kind that is not a dangling link); otherwise the first
  regular file of the listing whose stem equals the requested stem when there is one;
  otherwise the first regular file whose name contains the requested stem when there is
  one; otherwise none. With \<^verbatim>\<open>photo.jpeg\<close> on disk a reference to \<^verbatim>\<open>photo.jpg\<close> resolves to
  \<^verbatim>\<open>photo.jpeg\<close>.
\<close>

theorem find_file_by_basename_tiers:
  assumes "proper_name f" and "length f \<le> 255"
  shows "(exists_in dir f \<longrightarrow> find_file_by_basename dir f = Inr (Some (Entry f)))
    \<and> (\<not> exists_in dir f \<and> (\<exists>g. (g, File) \<in> set dir \<and> name_stem g = name_stem f) \<longrightarrow>
         (\<exists>g. find_file_by_basename dir f = Inr (Some (Entry g))
              \<and> first_file dir (\<lambda>n. name_stem n = name_stem f) g))
    \<and> (\<not> exists_in dir f \<and> (\<forall>g. (g, File) \<in> set dir \<longrightarrow> name_stem g \<noteq> name_stem f)
          \<and> (\<exists>g a b. (g, File) \<in> set dir \<and> g = a @ name_stem f @ b) \<longrightarrow>
         (\<exists>g. find_file_by_basename dir f = Inr (Some (Entry g))
              \<and> first_file dir (\<lambda>n. \<exists>a b. n = a @ name_stem f @ b) g))
    \<and> (\<not> exists_in dir f \<and> (\<forall>g. (g, File) \<in> set dir \<longrightarrow> name_stem g \<noteq> name_stem f)
          \<and> (\<forall>g a b. (g, File) \<in> set dir \<longrightarrow> g \<noteq> a @ name_stem f @ b) \<longrightarrow>
         find_file_by_basename dir f = Inr None)
    \<and> find_file_by_basename [(''photo.jpeg'', File)] ''photo.jpg''
        = Inr (Some (Entry ''photo.jpeg''))
    \<and> name_stem ''photo.jpg'' = ''photo'' \<and> name_stem ''photo.jpeg'' = ''photo''"
proof (intro conjI impI)
  from assms(2) have "length f \<le> name_max" by (simp add: name_max_def)
  note em = exact_match_proper [OF assms(1) this]
  note pn = path_name_proper [OF assms(1)]
  {
    assume "exists_in dir f"
    then show "find_file_by_basename dir f = Inr (Some (Entry f))"
      by (simp add: find_file_by_basename_def em)
  next
    assume a: "\<not> exists_in dir f \<and> (\<exists>g. (g, File) \<in> set dir \<and> name_stem g = name_stem f)"
    then have "find (\<lambda>(name, kind). kind = File \<and> name_stem name = name_stem f) dir \<noteq> None"
      by (simp add: find_file_None_iff)
    then obtain x where
      x: "find (\<lambda>(name, kind). kind = File \<and> name_stem name = name_stem f) dir = Some x"
      by auto
    from find_file_SomeD [OF this]
    have "first_file dir (\<lambda>n. name_stem n = name_stem f) (fst x)" by simp
    moreover have "find_file_by_basename dir f = Inr (Some (Entry (fst x)))"
      using a x by (simp add: find_file_by_basename_def em pn case_prod_unfold)
    ultimately show "\<exists>g. find_file_by_basename dir f = Inr (Some (Entry g))
              \<and> first_file dir (\<lambda>n. name_stem n = name_stem f) g"
      by blast
  next
    assume a: "\<not> exists_in dir f \<and> (\<forall>g. (g, File) \<in> set dir \<longrightarrow> name_stem g \<noteq> name_stem f)
          \<and> (\<exists>g a b. (g, File) \<in> set dir \<and> g = a @ name_stem f @ b)"
    then have n: "find (\<lambda>(name, kind). kind = File \<and> name_stem name = name_stem f) dir = None"
      by (simp add: find_file_None_iff)
    from a have "find (\<lambda>(name, kind). kind = File \<and> contains name (name_stem f)) dir \<noteq> None"
      by (simp add: find_file_None_iff contains_iff)
    then obtain x where
      x: "find (\<lambda>(name, kind). kind = File \<and> contains name (name_stem f)) dir = Some x"
      by auto
    from find_file_SomeD [OF this]
    have "first_file dir (\<lambda>n. contains n (name_stem f)) (fst x)" by simp
    then have "first_file dir (\<lambda>n. \<exists>a b. n = a @ name_stem f @ b) (fst x)"
      by (simp add: contains_iff)
    moreover have "find_file_by_basename dir f = Inr (Some (Entry (fst x)))"
      using a n x by (simp add: find_file_by_basename_def em pn case_prod_unfold)
    ultimately show "\<exists>g. find_file_by_basename dir f = Inr (Some (Entry g))
              \<and> first_file dir (\<lambda>n. \<exists>a b. n = a @ name_stem f @ b) g"
      by blast
  next
    assume a: "\<not> exists_in dir f \<and> (\<forall>g. (g, File) \<in> set dir \<longrightarrow> name_stem g \<noteq> name_stem f)
          \<and> (\<forall>g a b. (g, File) \<in> set dir \<longrightarrow> g \<noteq> a @ name_stem f @ b)"
    then have n: "find (\<lambda>(name, kind). kind = File \<and> name_stem name = name_stem f) dir = None"
      by (simp add: find_file_None_iff)
    from a have "find (\<lambda>(name, kind). kind = File \<and> contains name (name_stem f)) dir = None"
      by (simp add: find_file_None_iff contains_iff)
    with a n show "find_file_by_basename dir f = Inr None"
      by (simp add: find_file_by_basename_def em pn)
  }
  show "find_file_by_basename [(''photo.jpeg'', File)] ''photo.jpg''
        = Inr (Some (Entry ''photo.jpeg''))"
    by code_simp
  show "name_stem ''photo.jpg'' = ''photo''" by code_simp
  show "name_stem ''photo.jpeg'' = ''photo''" by code_simp
qed

text \<open>
  C5 as stated fails: the reference \<^verbatim>\<open>![a](..)\<close> hands the filename \<^verbatim>\<open>..\<close> to the resolver;
  the directory holds no entry of that name, no file of that stem and no file whose
  name contains it, yet the resolver returns a path, the parent of the attachments
  directory, not none.
\<close>

theorem find_file_by_basename_parent_counterexample:
  "resolver_filename ''..'' = ''..''
   \<and> find_file_by_basename [(''photo.jpeg'', File)] ''..'' = Inr (Some DirParent)
   \<and> \<not> exists_in [(''photo.jpeg'', File)] ''..''
   \<and> name_stem ''photo.jpeg'' \<noteq> name_stem ''..''
   \<and> \<not> contains ''photo.jpeg'' (name_stem ''..'')"
proof (intro conjI)
  show "resolver_filename ''..'' = ''..''" by code_simp
  show "find_file_by_basename [(''photo.jpeg'', File)] ''..'' = Inr (Some DirParent)" by code_simp
  show "\<not> exists_in [(''photo.jpeg'', File)] ''..''" by (simp add: exists_in_iff)
  show "name_stem ''photo.jpeg'' \<noteq> name_stem ''..''" by code_simp
  show "\<not> contains ''photo.jpeg'' (name_stem ''..'')" by code_simp
qed

theorem find_file_by_basename_tiers_witness:
  "proper_name ''photo.jpg'' \<and> length ''photo.jpg'' \<le> 255
   \<and> \<not> exists_in [(''notes.txt'', File), (''photo.jpg'', Dangling), (''photo.jpeg'', File)] ''photo.jpg''
   \<and> name_stem ''photo.jpeg'' = name_stem ''photo.jpg''
   \<and> find_file_by_basename
        [(''notes.txt'', File), (''photo.jpg'', Dangling), (''photo.jpeg'', File)] ''photo.jpg''
        = Inr (Some (Entry ''photo.jpeg''))
   \<and> (\<exists>g. find_file_by_basename
            [(''notes.txt'', File), (''photo.jpg'', Dangling), (''photo.jpeg'', File)] ''photo.jpg''
             = Inr (Some (Entry g))
          \<and> first_file [(''notes.txt'', File), (''photo.jpg'', Dangling), (''photo.jpeg'', File)]
              (\<lambda>n. name_stem n = name_stem ''photo.jpg'') g)"
proof -
  let ?D = "[(''notes.txt'', File), (''photo.jpg'', Dangling), (''photo.jpeg'', File)]"
  have p: "proper_name ''photo.jpg''" by (simp add: proper_name_def)
  have l: "length ''photo.jpg'' \<le> 255" by simp
  have s: "name_stem ''photo.jpeg'' = name_stem ''photo.jpg''" by code_simp
  have n: "\<not> exists_in ?D ''photo.jpg''" by (simp add: exists_in_iff)
  have e: "\<exists>g. (g, File) \<in> set ?D \<and> name_stem g = name_stem ''photo.jpg''"
    using s by auto
  have v: "find_file_by_basename ?D ''photo.jpg'' = Inr (Some (Entry ''photo.jpeg''))"
    by code_simp
  from find_file_by_basename_tiers [OF p l, of ?D] n e
  have "\<exists>g. find_file_by_basename ?D ''photo.jpg'' = Inr (Some (Entry g))
          \<and> first_file ?D (\<lambda>n. name_stem n = name_stem ''photo.jpg'') g"
    by blast
  with p l n s v show ?thesis by blast
qed


section \<open>Planning\<close>


lemma path_name_idem: "path_name (path_name p) = path_name p"
proof (cases "path_parts p")
  case Nil
  then show ?thesis by (simp add: path_name_def path_parts_def)
next
  case (Cons x xs)
  then have "last (x # xs) \<in> set (path_parts p)"
    using last_in_set [of "x # xs"] by simp
  then have "last (x # xs) \<noteq> []" "last (x # xs) \<noteq> ''.''"
    by (auto simp: path_parts_def)
  moreover have "CHR ''/'' \<notin> set (last (x # xs))"
    using path_name_no_slash [of p] Cons by (simp add: path_name_def)
  ultimately have "path_name (last (x # xs)) = last (x # xs)"
    by (simp add: path_name_def path_parts_def split_sep_none)
  with Cons show ?thesis by (simp add: path_name_def)
qed

lemma plan_step_Inl:
  "plan_step dir no_rename st r = Inl err \<longleftrightarrow>
   find_file_by_basename dir (path_name (snd (snd (snd r)))) = Inl err"
  by (cases r)
     (auto simp: plan_step_def Let_def resolver_filename_eq split: sum.splits option.splits)

lemma plan_step_files:
  "plan_step dir no_rename st r = Inr st' \<Longrightarrow>
   files_to_process st' =
     files_to_process st @ (if resolves dir (snd (snd (snd r))) then [plan_entry dir no_rename r] else [])"
  by (cases r)
     (auto simp: plan_step_def resolves_def plan_entry_def Let_def resolver_filename_eq
        path_name_idem split: sum.splits option.splits if_splits)

lemma plan_step_processed:
  "plan_step dir no_rename st r = Inr st' \<Longrightarrow>
   processed_files st' =
     processed_files st \<union>
       (if resolves dir (snd (snd (snd r))) then {file_name (fst (plan_entry dir no_rename r))} else {})"
  by (cases r)
     (auto simp: plan_step_def resolves_def plan_entry_def Let_def
        split: sum.splits option.splits if_splits)

lemma plan_step_missing:
  "plan_step dir no_rename st r = Inr st' \<Longrightarrow>
   missing_files st' =
     missing_files st @
       (if find_file_by_basename dir (path_name (snd (snd (snd r)))) = Inr None
        then [path_name (snd (snd (snd r)))] else [])"
  by (cases r)
     (auto simp: plan_step_def Let_def resolver_filename_eq
        split: sum.splits option.splits if_splits)

lemma plan_loop_files:
  "plan_loop dir no_rename st xs = Inr st' \<Longrightarrow>
   files_to_process st' =
     files_to_process st @
       map (plan_entry dir no_rename) (filter (\<lambda>r. resolves dir (snd (snd (snd r)))) xs)"
proof (induction xs arbitrary: st)
  case Nil
  then show ?case by simp
next
  case (Cons r rs)
  from Cons.prems obtain s where s: "plan_step dir no_rename st r = Inr s"
    and l: "plan_loop dir no_rename s rs = Inr st'"
    by (auto split: sum.splits)
  from Cons.IH [OF l] plan_step_files [OF s] show ?case by simp
qed

lemma plan_loop_processed:
  "plan_loop dir no_rename st xs = Inr st' \<Longrightarrow>
   processed_files st' =
     processed_files st \<union>
       (\<lambda>r. file_name (fst (plan_entry dir no_rename r))) `
          set (filter (\<lambda>r. resolves dir (snd (snd (snd r)))) xs)"
proof (induction xs arbitrary: st)
  case Nil
  then show ?case by simp
next
  case (Cons r rs)
  from Cons.prems obtain s where s: "plan_step dir no_rename st r = Inr s"
    and l: "plan_loop dir no_rename s rs = Inr st'"
    by (auto split: sum.splits)
  from Cons.IH [OF l] plan_step_processed [OF s] show ?case by auto
qed

lemma plan_loop_missing:
  "plan_loop dir no_rename st xs = Inr st' \<Longrightarrow>
   missing_files st' =
     missing_files st @
       map (\<lambda>r. path_name (snd (snd (snd r))))
         (filter (\<lambda>r. find_file_by_basename dir (path_name (snd (snd (snd r)))) = Inr None) xs)"
proof (induction xs arbitrary: st)
  case Nil
  then show ?case by simp
next
  case (Cons r rs)
  from Cons.prems obtain s where s: "plan_step dir no_rename st r = Inr s"
    and l: "plan_loop dir no_rename s rs = Inr st'"
    by (auto split: sum.splits)
  from Cons.IH [OF l] plan_step_missing [OF s] show ?case by simp
qed

lemma plan_loop_total:
  "(\<forall>r \<in> set xs. \<exists>x. find_file_by_basename dir (path_name (snd (snd (snd r)))) = Inr x) \<Longrightarrow>
   \<exists>st'. plan_loop dir no_rename st xs = Inr st'"
proof (induction xs arbitrary: st)
  case Nil
  then show ?case by simp
next
  case (Cons r rs)
  from Cons.prems obtain x where "find_file_by_basename dir (path_name (snd (snd (snd r)))) = Inr x"
    by auto
  then have "\<forall>err. plan_step dir no_rename st r \<noteq> Inl err"
    by (simp add: plan_step_Inl)
  then obtain s where s: "plan_step dir no_rename st r = Inr s"
    by (cases "plan_step dir no_rename st r") auto
  from Cons.prems have "\<forall>r \<in> set rs. \<exists>x. find_file_by_basename dir (path_name (snd (snd (snd r)))) = Inr x"
    by simp
  from Cons.IH [OF this, of s] s show ?case by simp
qed

lemma plan_loop_raises:
  "plan_loop dir no_rename st xs = Inr st' \<Longrightarrow> r \<in> set xs \<Longrightarrow>
   \<exists>x. find_file_by_basename dir (path_name (snd (snd (snd r)))) = Inr x"
proof (induction xs arbitrary: st)
  case Nil
  then show ?case by simp
next
  case (Cons a rs)
  from Cons.prems(1) obtain s where s: "plan_step dir no_rename st a = Inr s"
    and l: "plan_loop dir no_rename s rs = Inr st'"
    by (auto split: sum.splits)
  show ?case
  proof (cases "r = a")
    case True
    from s have "\<forall>err. plan_step dir no_rename st r \<noteq> Inl err" using True by simp
    then have "\<forall>err. find_file_by_basename dir (path_name (snd (snd (snd r)))) \<noteq> Inl err"
      by (simp add: plan_step_Inl)
    then show ?thesis
      by (cases "find_file_by_basename dir (path_name (snd (snd (snd r))))") auto
  next
    case False
    with Cons.prems(2) have "r \<in> set rs" by simp
    from Cons.IH [OF l this] show ?thesis .
  qed
qed

lemma plan_files:
  "plan_references dir no_rename refs = Inr st \<Longrightarrow>
   files_to_process st =
     map (plan_entry dir no_rename)
       (filter (\<lambda>r. resolves dir (snd (snd (snd r)))) (enumerate 1 refs))"
  unfolding plan_references_def by (drule plan_loop_files) (simp add: plan_init_def)

lemma plan_processed:
  "plan_references dir no_rename refs = Inr st \<Longrightarrow>
   processed_files st = (\<lambda>e. file_name (fst e)) ` set (files_to_process st)"
  unfolding plan_references_def
  by (frule plan_loop_files, drule plan_loop_processed) (simp add: plan_init_def image_image)

lemma plan_missing:
  "plan_references dir no_rename refs = Inr st \<Longrightarrow>
   missing_files st =
     map (\<lambda>r. path_name (snd (snd (snd r))))
       (filter (\<lambda>r. find_file_by_basename dir (path_name (snd (snd (snd r)))) = Inr None)
          (enumerate 1 refs))"
  unfolding plan_references_def by (drule plan_loop_missing) (simp add: plan_init_def)

lemma in_enumerate_refs:
  "r \<in> set (enumerate 1 refs) \<Longrightarrow> snd r \<in> set refs"
proof -
  assume "r \<in> set (enumerate 1 refs)"
  then have "fst r - 1 < length refs" "refs ! (fst r - 1) = snd r"
    by (auto simp: in_set_enumerate_eq)
  then show "snd r \<in> set refs"
    using nth_mem [of "fst r - 1" refs] by simp
qed


lemma plan_entry_sound:
  assumes "plan_references dir no_rename refs = Inr st"
    and "e \<in> set (files_to_process st)"
  shows "\<exists>idx full_match alt path.
           1 \<le> idx \<and> idx \<le> length refs \<and> refs ! (idx - 1) = (full_match, alt, path)
           \<and> resolves dir path
           \<and> e = plan_entry dir no_rename (idx, full_match, alt, path)"
proof -
  from assms obtain r where r: "r \<in> set (enumerate 1 refs)" "resolves dir (snd (snd (snd r)))"
    "e = plan_entry dir no_rename r"
    by (auto simp: plan_files)
  obtain idx full_match alt path where rr: "r = (idx, full_match, alt, path)"
    by (cases r) auto
  from r(1) have "1 \<le> idx" "idx < length refs + 1" "refs ! (idx - 1) = (full_match, alt, path)"
    by (simp_all add: in_set_enumerate_eq rr)
  with r rr show ?thesis by auto
qed

lemma resolves_SomeD:
  "resolves dir path \<Longrightarrow>
   \<exists>fp. find_file_by_basename dir (path_name path) = Inr (Some fp)
        \<and> get_file_type (file_name fp) \<noteq> Some ''video''
        \<and> get_file_type (file_name fp) \<noteq> None"
  by (auto simp: resolves_def resolver_filename_eq split: sum.splits option.splits)




lemma decimal_snoc: "decimal (s @ [c]) = 10 * decimal s + digit_value c"
  by (simp add: decimal_def)

lemma digit_value_char: "(d::nat) < 10 \<Longrightarrow> digit_value (char_of (48 + d)) = d"
  by (simp add: digit_value_def)

lemma is_digit_char: "(d::nat) < 10 \<Longrightarrow> is_digit (char_of (48 + d))"
  by (simp add: is_digit_def)

lemma decimal_str_of_nat: "decimal (str_of_nat n) = n"
proof (induction n rule: str_of_nat.induct)
  case (1 n)
  show ?case
  proof (cases "n < 10")
    case True
    then have "str_of_nat n = [] @ [char_of (48 + n)]" by (subst str_of_nat.simps) simp
    then have "decimal (str_of_nat n) = 10 * decimal [] + digit_value (char_of (48 + n))"
      by (simp only: decimal_snoc)
    with True show ?thesis by (simp add: digit_value_char decimal_def)
  next
    case False
    then have "str_of_nat n = str_of_nat (n div 10) @ [char_of (48 + n mod 10)]"
      by (subst str_of_nat.simps) simp
    then have "decimal (str_of_nat n)
        = 10 * decimal (str_of_nat (n div 10)) + digit_value (char_of (48 + n mod 10))"
      by (simp only: decimal_snoc)
    with 1 False show ?thesis by (simp add: digit_value_char)
  qed
qed

lemma digits_str_of_nat: "c \<in> set (str_of_nat n) \<Longrightarrow> is_digit c"
proof (induction n rule: str_of_nat.induct)
  case (1 n)
  show ?case
  proof (cases "n < 10")
    case True
    from True have "str_of_nat n = [char_of (48 + n)]" by (subst str_of_nat.simps) simp
    with 1(2) have "c = char_of (48 + n)" by simp
    with True show ?thesis by (simp add: is_digit_char)
  next
    case False
    then have "str_of_nat n = str_of_nat (n div 10) @ [char_of (48 + n mod 10)]"
      by (subst str_of_nat.simps) simp
    with 1(2) have "c \<in> set (str_of_nat (n div 10)) \<or> c = char_of (48 + n mod 10)"
      by auto
    with 1(1) False show ?thesis by (auto simp: is_digit_char)
  qed
qed

lemma str_of_nat_nonempty: "str_of_nat n \<noteq> []"
  by (subst str_of_nat.simps) simp

lemma length_str_of_nat: "length (str_of_nat n) = 1 \<longleftrightarrow> n < 10"
proof (cases "n < 10")
  case True
  then have "str_of_nat n = [char_of (48 + n)]" by (subst str_of_nat.simps) simp
  with True show ?thesis by simp
next
  case False
  then have "str_of_nat n = str_of_nat (n div 10) @ [char_of (48 + n mod 10)]"
    by (subst str_of_nat.simps) simp
  with False str_of_nat_nonempty [of "n div 10"] show ?thesis by simp
qed

lemma hd_str_of_nat: "0 < n \<Longrightarrow> hd (str_of_nat n) \<noteq> CHR ''0''"
proof (induction n rule: str_of_nat.induct)
  case (1 n)
  show ?case
  proof (cases "n < 10")
    case True
    then have "str_of_nat n = [char_of (48 + n)]" by (subst str_of_nat.simps) simp
    then have "hd (str_of_nat n) = char_of (48 + n)" by simp
    moreover have "digit_value (char_of (48 + n)) = n" using True by (rule digit_value_char)
    moreover have "digit_value CHR ''0'' = 0" by (simp add: digit_value_def)
    ultimately show ?thesis using 1(2) by auto
  next
    case False
    then have "str_of_nat n = str_of_nat (n div 10) @ [char_of (48 + n mod 10)]"
      by (subst str_of_nat.simps) simp
    then have "hd (str_of_nat n) = hd (str_of_nat (n div 10))"
      using str_of_nat_nonempty [of "n div 10"] by simp
    moreover from False have "0 < n div 10" by simp
    ultimately show ?thesis using 1(1) False by simp
  qed
qed

lemma decimal_zeros: "decimal (replicate k CHR ''0'' @ s) = decimal s"
proof -
  have "foldl (\<lambda>a c. 10 * a + digit_value c) 0 (replicate k CHR ''0'') = 0"
    by (induction k) (simp_all add: digit_value_def)
  then show ?thesis by (simp add: decimal_def)
qed

lemma fmt_02d_small: "n < 10 \<Longrightarrow> fmt_02d n = [CHR ''0'', char_of (48 + n)]"
proof -
  assume "n < 10"
  then have "str_of_nat n = [char_of (48 + n)]" by (subst str_of_nat.simps) simp
  then show ?thesis by (simp add: fmt_02d_def)
qed

lemma fmt_02d_large: "10 \<le> n \<Longrightarrow> fmt_02d n = str_of_nat n"
proof -
  assume "10 \<le> n"
  then have "length (str_of_nat n) \<noteq> 1" using length_str_of_nat [of n] by simp
  with str_of_nat_nonempty [of n] have "2 \<le> length (str_of_nat n)"
    by (cases "str_of_nat n") (auto simp: Suc_le_eq)
  then show ?thesis by (simp add: fmt_02d_def Let_def)
qed

lemma fmt_02d_decimal:
  "decimal (fmt_02d n) = n \<and> 2 \<le> length (fmt_02d n) \<and> (\<forall>c \<in> set (fmt_02d n). is_digit c)
   \<and> (n < 10 \<longrightarrow> length (fmt_02d n) = 2) \<and> (10 \<le> n \<longrightarrow> hd (fmt_02d n) \<noteq> CHR ''0'')"
proof (intro conjI ballI impI)
  show "decimal (fmt_02d n) = n"
    by (simp add: fmt_02d_def Let_def decimal_zeros decimal_str_of_nat)
  show "2 \<le> length (fmt_02d n)"
    by (simp add: fmt_02d_def Let_def)
  show "is_digit c" if "c \<in> set (fmt_02d n)" for c
  proof -
    from that have "c = CHR ''0'' \<or> c \<in> set (str_of_nat n)"
      by (auto simp: fmt_02d_def Let_def)
    moreover have "is_digit CHR ''0''" by (simp add: is_digit_def)
    ultimately show ?thesis by (auto simp: digits_str_of_nat)
  qed
  show "length (fmt_02d n) = 2" if "n < 10" using that by (simp add: fmt_02d_small)
  show "hd (fmt_02d n) \<noteq> CHR ''0''" if "10 \<le> n"
    using that hd_str_of_nat [of n] by (simp add: fmt_02d_large)
qed

lemma rfind_last:
  assumes "c \<notin> set b"
  shows "rfind (a @ c # b) c = int (length a)"
proof -
  have "takeWhile (\<lambda>x. x \<noteq> c) (rev b @ c # rev a) = rev b"
    using assms by (simp add: takeWhile_stop)
  then show ?thesis by (simp add: rfind_def)
qed

lemma name_stem_split:
  assumes "a \<noteq> []" "b \<noteq> []" "CHR ''.'' \<notin> set b"
  shows "name_stem (a @ CHR ''.'' # b) = a" "name_suffix (a @ CHR ''.'' # b) = CHR ''.'' # b"
  using assms by (simp_all add: name_stem_def name_suffix_def rfind_last)

lemma name_stem_whole:
  assumes "\<not> (\<exists>a b. n = a @ CHR ''.'' # b \<and> a \<noteq> [] \<and> b \<noteq> [] \<and> CHR ''.'' \<notin> set b)"
  shows "name_stem n = n" "name_suffix n = []"
proof -
  have "name_stem n = n \<and> name_suffix n = []"
  proof (cases "CHR ''.'' \<in> set n")
    case False
    then show ?thesis by (simp add: name_stem_def name_suffix_def rfind_def)
  next
    case True
    then obtain a b where n: "n = a @ CHR ''.'' # b" and b: "CHR ''.'' \<notin> set b"
      by (auto dest: split_list_last)
    with assms have "a = [] \<or> b = []" by blast
    with n b show ?thesis
      by (auto simp: name_stem_def name_suffix_def rfind_last)
  qed
  then show "name_stem n = n" "name_suffix n = []" by simp_all
qed




lemma special_types:
  "get_file_type (file_name DirItself) = None" "get_file_type (file_name DirParent) = None"
  by code_simp+

lemma find_file_stem:
  assumes f: "find_file_by_basename dir f = Inr (Some fp)"
    and t: "get_file_type (file_name fp) \<noteq> None"
    and e: "exists_in dir f \<or> (\<exists>g. (g, File) \<in> set dir \<and> name_stem g = name_stem (path_name f))"
    and pn: "path_name f = f"
  shows "name_stem (file_name fp) = name_stem (path_name f)"
proof -
  show ?thesis
  proof (cases "exact_match dir f")
    case (Inl err)
    with f show ?thesis by (simp add: find_file_by_basename_def)
  next
    case (Inr m)
    show ?thesis
    proof (cases m)
      case (Some p)
      with Inr f have p: "fp = p" by (simp add: find_file_by_basename_def)
      from Inr Some consider "p = DirItself" | "p = DirParent"
        | "p = Entry f"
        by (auto simp: exact_match_def split: if_splits)
      then show ?thesis
      proof cases
        case 1
        with p t show ?thesis by (simp only: special_types) simp
      next
        case 2
        with p t show ?thesis by (simp only: special_types) simp
      next
        case 3
        with p pn show ?thesis by simp
      qed
    next
      case None
      with Inr have ne: "\<not> exists_in dir f"
        by (auto simp: exact_match_def exists_in_iff split: if_splits)
      with e have "find (\<lambda>(name, kind). kind = File \<and> name_stem name = name_stem (path_name f)) dir
                     \<noteq> None"
        by (simp add: find_file_None_iff)
      then obtain x where
        x: "find (\<lambda>(name, kind). kind = File \<and> name_stem name = name_stem (path_name f)) dir
              = Some x"
        by auto
      from find_file_SomeD [OF this]
      have "first_file dir (\<lambda>n. name_stem n = name_stem (path_name f)) (fst x)" by simp
      then have "name_stem (fst x) = name_stem (path_name f)"
        by (auto dest: first_file_listed)
      moreover from f Inr None x have "fp = Entry (fst x)"
        by (simp add: find_file_by_basename_def case_prod_unfold)
      ultimately show ?thesis by simp
    qed
  qed
qed

text \<open>
  C6 (amended). Every plan entry comes from the reference at the 1-based position \<open>idx\<close> of
  the reference list, holds the path the resolver returns for that reference, and is named
  \<^verbatim>\<open>img_<idx>.webp\<close> by default, with \<open>idx\<close> in decimal and a zero in front when it is below
  10, and \<^verbatim>\<open><stem of the referenced filename>.webp\<close> when renaming is disabled; that stem is
  the stem of the resolved source file when the file was found by exact name or by stem
  equality. When all \<open>N\<close> references resolve, planning completes and the default names are
  \<^verbatim>\<open>img_01.webp\<close> to \<^verbatim>\<open>img_NN.webp\<close>. The format \<^verbatim>\<open>{idx:02d}\<close> gives the decimal digits of
  \<open>idx\<close>, two at least, with no zero in front from 10 on; the stem of a name is the part
  before its last dot when that dot is neither the first nor the last character, and the
  whole name otherwise.
\<close>

theorem plan_output_names:
  "(\<forall>st. plan_references dir no_rename refs = Inr st \<longrightarrow>
      (\<forall>(file_path, new_name, idx) \<in> set (files_to_process st).
         1 \<le> idx \<and> idx \<le> length refs
         \<and> (\<exists>full_match alt path.
               refs ! (idx - 1) = (full_match, alt, path)
               \<and> find_file_by_basename dir (path_name path) = Inr (Some file_path)
               \<and> new_name = (if no_rename then name_stem (path_name path) @ ''.webp''
                             else ''img_'' @ fmt_02d idx @ ''.webp'')
               \<and> (no_rename
                    \<and> (exists_in dir (path_name path)
                        \<or> (\<exists>g. (g, File) \<in> set dir \<and> name_stem g = name_stem (path_name path)))
                  \<longrightarrow> new_name = name_stem (file_name file_path) @ ''.webp''))))
   \<and> ((\<forall>(full_match, alt, path) \<in> set refs. resolves dir path) \<longrightarrow>
         (\<exists>st. plan_references dir False refs = Inr st
            \<and> map (\<lambda>(file_path, new_name, idx). new_name) (files_to_process st)
                = map (\<lambda>i. ''img_'' @ fmt_02d i @ ''.webp'') [1..<Suc (length refs)]))
   \<and> (\<forall>n. decimal (fmt_02d n) = n \<and> 2 \<le> length (fmt_02d n)
          \<and> (\<forall>c \<in> set (fmt_02d n). is_digit c)
          \<and> (n < 10 \<longrightarrow> length (fmt_02d n) = 2)
          \<and> (10 \<le> n \<longrightarrow> hd (fmt_02d n) \<noteq> CHR ''0''))
   \<and> fmt_02d 1 = ''01'' \<and> fmt_02d 9 = ''09'' \<and> fmt_02d 10 = ''10'' \<and> fmt_02d 12 = ''12''
   \<and> fmt_02d 100 = ''100''
   \<and> (\<forall>a b. a \<noteq> [] \<and> b \<noteq> [] \<and> CHR ''.'' \<notin> set b \<longrightarrow> name_stem (a @ ''.'' @ b) = a)
   \<and> (\<forall>n. \<not> (\<exists>a b. n = a @ ''.'' @ b \<and> a \<noteq> [] \<and> b \<noteq> [] \<and> CHR ''.'' \<notin> set b) \<longrightarrow>
          name_stem n = n)
   \<and> name_stem ''photo.jpg'' = ''photo'' \<and> name_stem ''archive.tar.gz'' = ''archive.tar''
   \<and> name_stem ''.hidden'' = ''.hidden'' \<and> name_stem ''README'' = ''README''"
proof (intro conjI)
  show "\<forall>st. plan_references dir no_rename refs = Inr st \<longrightarrow>
      (\<forall>(file_path, new_name, idx) \<in> set (files_to_process st).
         1 \<le> idx \<and> idx \<le> length refs
         \<and> (\<exists>full_match alt path.
               refs ! (idx - 1) = (full_match, alt, path)
               \<and> find_file_by_basename dir (path_name path) = Inr (Some file_path)
               \<and> new_name = (if no_rename then name_stem (path_name path) @ ''.webp''
                             else ''img_'' @ fmt_02d idx @ ''.webp'')
               \<and> (no_rename
                    \<and> (exists_in dir (path_name path)
                        \<or> (\<exists>g. (g, File) \<in> set dir \<and> name_stem g = name_stem (path_name path)))
                  \<longrightarrow> new_name = name_stem (file_name file_path) @ ''.webp'')))"
  proof (intro allI impI, clarify)
    fix st file_path new_name idx
    assume st: "plan_references dir no_rename refs = Inr st"
      and "(file_path, new_name, idx) \<in> set (files_to_process st)"
    from plan_entry_sound [OF this] obtain i full_match alt path where
      i: "1 \<le> i" "i \<le> length refs" "refs ! (i - 1) = (full_match, alt, path)"
      and res: "resolves dir path"
      and e: "(file_path, new_name, idx) = plan_entry dir no_rename (i, full_match, alt, path)"
      by blast
    from resolves_SomeD [OF res] obtain fp where
      fp: "find_file_by_basename dir (path_name path) = Inr (Some fp)"
      and ty: "get_file_type (file_name fp) \<noteq> None"
      by blast
    from e fp have eq: "idx = i" "file_path = fp"
      and nn: "new_name = (if no_rename then name_stem (path_name path) @ ''.webp''
                          else ''img_'' @ fmt_02d idx @ ''.webp'')"
      by (auto simp: plan_entry_def resolver_filename_eq)
    have stem: "no_rename
          \<and> (exists_in dir (path_name path)
              \<or> (\<exists>g. (g, File) \<in> set dir \<and> name_stem g = name_stem (path_name path)))
        \<longrightarrow> new_name = name_stem (file_name file_path) @ ''.webp''"
    proof
      assume a: "no_rename
          \<and> (exists_in dir (path_name path)
              \<or> (\<exists>g. (g, File) \<in> set dir \<and> name_stem g = name_stem (path_name path)))"
      then have "exists_in dir (path_name path)
          \<or> (\<exists>g. (g, File) \<in> set dir \<and> name_stem g = name_stem (path_name (path_name path)))"
        by (simp add: path_name_idem)
      from find_file_stem [OF fp ty this path_name_idem]
      have "name_stem (file_name fp) = name_stem (path_name path)"
        by (simp add: path_name_idem)
      with a nn eq show "new_name = name_stem (file_name file_path) @ ''.webp''" by simp
    qed
    from i eq fp nn stem
    show "1 \<le> idx \<and> idx \<le> length refs
         \<and> (\<exists>full_match alt path.
               refs ! (idx - 1) = (full_match, alt, path)
               \<and> find_file_by_basename dir (path_name path) = Inr (Some file_path)
               \<and> new_name = (if no_rename then name_stem (path_name path) @ ''.webp''
                             else ''img_'' @ fmt_02d idx @ ''.webp'')
               \<and> (no_rename
                    \<and> (exists_in dir (path_name path)
                        \<or> (\<exists>g. (g, File) \<in> set dir \<and> name_stem g = name_stem (path_name path)))
                  \<longrightarrow> new_name = name_stem (file_name file_path) @ ''.webp''))"
      by blast
  qed
next
  show "(\<forall>(full_match, alt, path) \<in> set refs. resolves dir path) \<longrightarrow>
         (\<exists>st. plan_references dir False refs = Inr st
            \<and> map (\<lambda>(file_path, new_name, idx). new_name) (files_to_process st)
                = map (\<lambda>i. ''img_'' @ fmt_02d i @ ''.webp'') [1..<Suc (length refs)])"
  proof
    assume all: "\<forall>(full_match, alt, path) \<in> set refs. resolves dir path"
    have res: "resolves dir (snd (snd (snd r)))" if "r \<in> set (enumerate 1 refs)" for r
    proof -
      from that have "snd r \<in> set refs" by (rule in_enumerate_refs)
      with all show ?thesis by (auto simp: case_prod_unfold)
    qed
    then have f: "filter (\<lambda>r. resolves dir (snd (snd (snd r)))) (enumerate 1 refs) = enumerate 1 refs"
      by (simp add: filter_id_conv)
    have "\<forall>r \<in> set (enumerate 1 refs).
            \<exists>x. find_file_by_basename dir (path_name (snd (snd (snd r)))) = Inr x"
      using res resolves_SomeD by blast
    then have "\<exists>st. plan_loop dir False plan_init (enumerate 1 refs) = Inr st"
      by (rule plan_loop_total)
    then obtain st where st: "plan_references dir False refs = Inr st"
      by (auto simp: plan_references_def)
    have "map (\<lambda>(file_path, new_name, idx). new_name) (files_to_process st)
          = map (\<lambda>r. ''img_'' @ fmt_02d (fst r) @ ''.webp'') (enumerate 1 refs)"
      unfolding plan_files [OF st] f by (simp add: plan_entry_def case_prod_unfold comp_def)
    also have "\<dots> = map (\<lambda>i. ''img_'' @ fmt_02d i @ ''.webp'') (map fst (enumerate 1 refs))"
      by (simp only: map_map comp_def)
    also have "map fst (enumerate 1 refs) = [1..<Suc (length refs)]"
      by (simp only: map_fst_enumerate plus_1_eq_Suc)
    finally have "map (\<lambda>(file_path, new_name, idx). new_name) (files_to_process st)
           = map (\<lambda>i. ''img_'' @ fmt_02d i @ ''.webp'') [1..<Suc (length refs)]" .
    with st show "\<exists>st. plan_references dir False refs = Inr st
            \<and> map (\<lambda>(file_path, new_name, idx). new_name) (files_to_process st)
                = map (\<lambda>i. ''img_'' @ fmt_02d i @ ''.webp'') [1..<Suc (length refs)]"
      by blast
  qed
next
  show "\<forall>n. decimal (fmt_02d n) = n \<and> 2 \<le> length (fmt_02d n)
          \<and> (\<forall>c \<in> set (fmt_02d n). is_digit c)
          \<and> (n < 10 \<longrightarrow> length (fmt_02d n) = 2)
          \<and> (10 \<le> n \<longrightarrow> hd (fmt_02d n) \<noteq> CHR ''0'')"
    using fmt_02d_decimal by blast
next
  show "fmt_02d 1 = ''01''" by code_simp
next
  show "fmt_02d 9 = ''09''" by code_simp
next
  show "fmt_02d 10 = ''10''" by code_simp
next
  show "fmt_02d 12 = ''12''" by code_simp
next
  show "fmt_02d 100 = ''100''" by code_simp
next
  show "\<forall>a b. a \<noteq> [] \<and> b \<noteq> [] \<and> CHR ''.'' \<notin> set b \<longrightarrow> name_stem (a @ ''.'' @ b) = a"
    by (simp add: name_stem_split)
next
  show "\<forall>n. \<not> (\<exists>a b. n = a @ ''.'' @ b \<and> a \<noteq> [] \<and> b \<noteq> [] \<and> CHR ''.'' \<notin> set b) \<longrightarrow>
          name_stem n = n"
    using name_stem_whole(1) by simp
next
  show "name_stem ''photo.jpg'' = ''photo''" by code_simp
next
  show "name_stem ''archive.tar.gz'' = ''archive.tar''" by code_simp
next
  show "name_stem ''.hidden'' = ''.hidden''" by code_simp
next
  show "name_stem ''README'' = ''README''" by code_simp
qed

text \<open>
  C6 as stated fails when renaming is disabled and the file was found by the substring
  tier: the reference \<^verbatim>\<open>a.jpg\<close> resolves to \<^verbatim>\<open>archive.tar.png\<close>, whose stem is
  \<^verbatim>\<open>archive.tar\<close>, and the output is named \<^verbatim>\<open>a.webp\<close>.
\<close>

theorem plan_output_names_stem_counterexample:
  "plan_references [(''archive.tar.png'', File)] True [(''![x](a.jpg)'', ''x'', ''a.jpg'')]
     = Inr \<lparr>files_to_process = [(Entry ''archive.tar.png'', ''a.webp'', 1)],
            processed_files = {''archive.tar.png''}, missing_files = [],
            skipped_videos = [], unknown_types = []\<rparr>
   \<and> name_stem ''archive.tar.png'' = ''archive.tar''"
proof
  show "plan_references [(''archive.tar.png'', File)] True [(''![x](a.jpg)'', ''x'', ''a.jpg'')]
     = Inr \<lparr>files_to_process = [(Entry ''archive.tar.png'', ''a.webp'', 1)],
            processed_files = {''archive.tar.png''}, missing_files = [],
            skipped_videos = [], unknown_types = []\<rparr>"
    by code_simp
  show "name_stem ''archive.tar.png'' = ''archive.tar''" by code_simp
qed




theorem plan_output_names_witness:
  "plan_references [(''b.png'', File), (''a.jpeg'', File)] False
      [(''![q](q.gif)'', ''q'', ''q.gif''), (''![q](q.gif)'', ''q'', ''q.gif''),
       (''![q](q.gif)'', ''q'', ''q.gif''), (''![q](q.gif)'', ''q'', ''q.gif''),
       (''![q](q.gif)'', ''q'', ''q.gif''), (''![q](q.gif)'', ''q'', ''q.gif''),
       (''![q](q.gif)'', ''q'', ''q.gif''), (''![q](q.gif)'', ''q'', ''q.gif''),
       (''![q](q.gif)'', ''q'', ''q.gif''), (''![q](q.gif)'', ''q'', ''q.gif''),
       (''![q](q.gif)'', ''q'', ''q.gif''), (''![z](b.png)'', ''z'', ''b.png'')]
     = Inr \<lparr>files_to_process = [(Entry ''b.png'', ''img_12.webp'', 12)],
            processed_files = {''b.png''},
            missing_files = [''q.gif'', ''q.gif'', ''q.gif'', ''q.gif'', ''q.gif'', ''q.gif'',
                             ''q.gif'', ''q.gif'', ''q.gif'', ''q.gif'', ''q.gif''],
            skipped_videos = [], unknown_types = []\<rparr>
   \<and> ''img_12.webp'' = ''img_'' @ fmt_02d 12 @ ''.webp''
   \<and> plan_references [(''b.png'', File), (''a.jpeg'', File)] True
        [(''![x](Attachments/a.jpg)'', ''x'', ''Attachments/a.jpg'')]
     = Inr \<lparr>files_to_process = [(Entry ''a.jpeg'', ''a.webp'', 1)],
            processed_files = {''a.jpeg''}, missing_files = [],
            skipped_videos = [], unknown_types = []\<rparr>
   \<and> ''a.webp'' = name_stem (path_name ''Attachments/a.jpg'') @ ''.webp''
   \<and> ''a.webp'' = name_stem (file_name (Entry ''a.jpeg'')) @ ''.webp''"
proof -
  let ?D = "[(''b.png'', File), (''a.jpeg'', File)]"
  let ?q = "(''![q](q.gif)'', ''q'', ''q.gif'')"
  let ?R = "[?q, ?q, ?q, ?q, ?q, ?q, ?q, ?q, ?q, ?q, ?q, (''![z](b.png)'', ''z'', ''b.png'')]"
  let ?st = "\<lparr>files_to_process = [(Entry ''b.png'', ''img_12.webp'', 12)],
            processed_files = {''b.png''},
            missing_files = [''q.gif'', ''q.gif'', ''q.gif'', ''q.gif'', ''q.gif'', ''q.gif'',
                             ''q.gif'', ''q.gif'', ''q.gif'', ''q.gif'', ''q.gif''],
            skipped_videos = [], unknown_types = []\<rparr>"
  let ?S = "[(''![x](Attachments/a.jpg)'', ''x'', ''Attachments/a.jpg'')]"
  let ?sn = "\<lparr>files_to_process = [(Entry ''a.jpeg'', ''a.webp'', 1)],
            processed_files = {''a.jpeg''}, missing_files = [],
            skipped_videos = [], unknown_types = []\<rparr>"
  have p: "plan_references ?D False ?R = Inr ?st" by code_simp
  have m: "(Entry ''b.png'', ''img_12.webp'', 12) \<in> set (files_to_process ?st)" by simp
  from plan_output_names [of ?D False ?R, THEN conjunct1, rule_format, OF p m]
  have a: "''img_12.webp'' = ''img_'' @ fmt_02d 12 @ ''.webp''" by simp
  have q: "plan_references ?D True ?S = Inr ?sn" by code_simp
  have n: "(Entry ''a.jpeg'', ''a.webp'', 1) \<in> set (files_to_process ?sn)" by simp
  have s: "name_stem ''a.jpeg'' = name_stem (path_name ''Attachments/a.jpg'')" by code_simp
  have g: "(''a.jpeg'', File) \<in> set ?D" by simp
  from plan_output_names [of ?D True ?S, THEN conjunct1, rule_format, OF q n]
  have "\<exists>full_match alt path.
          ?S ! (1 - 1) = (full_match, alt, path)
          \<and> find_file_by_basename ?D (path_name path) = Inr (Some (Entry ''a.jpeg''))
          \<and> ''a.webp'' = (if True then name_stem (path_name path) @ ''.webp''
                           else ''img_'' @ fmt_02d 1 @ ''.webp'')
          \<and> (True
               \<and> (exists_in ?D (path_name path)
                   \<or> (\<exists>g. (g, File) \<in> set ?D \<and> name_stem g = name_stem (path_name path)))
             \<longrightarrow> ''a.webp'' = name_stem (file_name (Entry ''a.jpeg'')) @ ''.webp'')"
    by (simp only: prod.case)
  then obtain full_match alt path where
    r: "?S ! (1 - 1) = (full_match, alt, path)"
    and nn: "''a.webp'' = (if True then name_stem (path_name path) @ ''.webp''
                           else ''img_'' @ fmt_02d 1 @ ''.webp'')"
    and imp: "True
               \<and> (exists_in ?D (path_name path)
                   \<or> (\<exists>g. (g, File) \<in> set ?D \<and> name_stem g = name_stem (path_name path)))
             \<longrightarrow> ''a.webp'' = name_stem (file_name (Entry ''a.jpeg'')) @ ''.webp''"
    by (elim exE conjE)
  from r have pa: "path = ''Attachments/a.jpg''" by simp
  from nn have b': "''a.webp'' = name_stem (path_name ''Attachments/a.jpg'') @ ''.webp''"
    unfolding pa by (simp only: if_True)
  from g s have "\<exists>g. (g, File) \<in> set ?D \<and> name_stem g = name_stem (path_name ''Attachments/a.jpg'')"
    by (rule_tac x = "''a.jpeg''" in exI) (rule conjI)
  with imp have c: "''a.webp'' = name_stem (file_name (Entry ''a.jpeg'')) @ ''.webp''"
    unfolding pa by (simp only: simp_thms)
  from p a q b' c show ?thesis by (intro conjI)
qed

lemma all_files_eq: "all_files dir = {n. (n, File) \<in> set dir}"
  by (auto simp: all_files_def image_iff)

lemma find_file_Entry_listed:
  assumes "find_file_by_basename dir f = Inr (Some (Entry n))"
  shows "exists_in dir n"
proof (cases "exact_match dir f")
  case (Inl err)
  with assms show ?thesis by (simp add: find_file_by_basename_def)
next
  case (Inr m)
  show ?thesis
  proof (cases m)
    case (Some p)
    with Inr assms have "exact_match dir f = Inr (Some (Entry n))"
      by (simp add: find_file_by_basename_def)
    then show ?thesis by (auto simp: exact_match_def exists_in_iff split: if_splits)
  next
    case None
    let ?b = "name_stem (path_name f)"
    show ?thesis
    proof (cases "find (\<lambda>(name, kind). kind = File \<and> name_stem name = ?b) dir")
      case (Some x)
      with Inr None assms have "n = fst x"
        by (simp add: find_file_by_basename_def case_prod_unfold)
      moreover from find_file_SomeD [OF Some] have "(fst x, File) \<in> set dir" by simp
      ultimately show ?thesis by (simp add: exists_in_iff)
    next
      case n2: None
      show ?thesis
      proof (cases "find (\<lambda>(name, kind). kind = File \<and> contains name ?b) dir")
        case (Some x)
        with Inr None n2 assms have "n = fst x"
          by (simp add: find_file_by_basename_def case_prod_unfold)
        moreover from find_file_SomeD [OF Some] have "(fst x, File) \<in> set dir" by simp
        ultimately show ?thesis by (simp add: exists_in_iff)
      next
        case n3: None
        with Inr None n2 assms show ?thesis by (simp add: find_file_by_basename_def)
      qed
    qed
  qed
qed

lemma find_file_exists:
  "exists_in dir n \<Longrightarrow> find_file_by_basename dir n \<noteq> Inr None"
  by (simp add: find_file_by_basename_def exact_match_def exists_in_iff)

lemma processed_found:
  assumes st: "plan_references dir no_rename refs = Inr st"
    and "f \<in> processed_files st"
  shows "find_file_by_basename dir f \<noteq> Inr None"
proof -
  from assms obtain e where e: "e \<in> set (files_to_process st)"
    and f: "f = file_name (fst e)"
    by (auto simp: plan_processed)
  from plan_entry_sound [OF st e] obtain idx full_match alt path where
    res: "resolves dir path" and ee: "e = plan_entry dir no_rename (idx, full_match, alt, path)"
    by blast
  from resolves_SomeD [OF res] obtain fp where
    fp: "find_file_by_basename dir (path_name path) = Inr (Some fp)"
    and ty: "get_file_type (file_name fp) \<noteq> None"
    by blast
  from ee fp have "fst e = fp" by (simp add: plan_entry_def resolver_filename_eq)
  with f have ff: "f = file_name fp" by simp
  show ?thesis
  proof (cases fp)
    case (Entry n)
    with fp have "exists_in dir n" by (auto dest: find_file_Entry_listed)
    with ff Entry show ?thesis by (simp add: find_file_exists)
  next
    case DirItself
    with ty show ?thesis by (simp only: special_types) simp
  next
    case DirParent
    with ty show ?thesis by (simp only: special_types) simp
  qed
qed

lemma missing_not_found:
  assumes "plan_references dir no_rename refs = Inr st" and "f \<in> set (missing_files st)"
  shows "find_file_by_basename dir f = Inr None"
  using assms by (auto simp: plan_missing)

lemma in_refs_enumerate:
  assumes "x \<in> set refs"
  shows "\<exists>i. (i, x) \<in> set (enumerate 1 refs)"
proof -
  from assms obtain k where "k < length refs" "refs ! k = x"
    by (auto simp: in_set_conv_nth)
  then have "(Suc k, x) \<in> set (enumerate 1 refs)"
    by (simp add: in_set_enumerate_eq)
  then show ?thesis ..
qed

lemma not_found_missing:
  assumes st: "plan_references dir no_rename refs = Inr st"
    and r: "(full_match, alt, path) \<in> set refs"
    and n: "find_file_by_basename dir (path_name path) = Inr None"
  shows "path_name path \<in> set (missing_files st)"
proof -
  from in_refs_enumerate [OF r] obtain i where
    "(i, full_match, alt, path) \<in> set (enumerate 1 refs)" ..
  with n have "(i, full_match, alt, path) \<in>
      set (filter (\<lambda>r. find_file_by_basename dir (path_name (snd (snd (snd r)))) = Inr None)
            (enumerate 1 refs))"
    by simp
  then have "(\<lambda>r. path_name (snd (snd (snd r)))) (i, full_match, alt, path) \<in>
      set (map (\<lambda>r. path_name (snd (snd (snd r))))
        (filter (\<lambda>r. find_file_by_basename dir (path_name (snd (snd (snd r)))) = Inr None)
            (enumerate 1 refs)))"
    unfolding set_map by (rule imageI)
  then show ?thesis by (simp only: plan_missing [OF st]) simp
qed

text \<open>
  C7. After planning, the unused set is the set of the names of the regular files of the
  attachments directory minus the resolved source filenames of the plan entries, which
  are the processed set; no filename recorded as missing or as unused is in the processed
  set. A regular file that is not a resolved source is unused; a filename recorded as
  missing has no match, and the filename of a reference without a match is recorded as
  missing.
\<close>

theorem unused_missing_disjoint:
  "\<forall>st. plan_references dir no_rename refs = Inr st \<longrightarrow>
     unused_files dir st
       = {n. (n, File) \<in> set dir}
         - (\<lambda>(file_path, new_name, idx). file_name file_path) ` set (files_to_process st)
     \<and> processed_files st
         = (\<lambda>(file_path, new_name, idx). file_name file_path) ` set (files_to_process st)
     \<and> set (missing_files st) \<inter> processed_files st = {}
     \<and> unused_files dir st \<inter> processed_files st = {}
     \<and> (\<forall>n. (n, File) \<in> set dir \<and> n \<notin> processed_files st \<longrightarrow> n \<in> unused_files dir st)
     \<and> (\<forall>f \<in> set (missing_files st). find_file_by_basename dir f = Inr None)
     \<and> (\<forall>(full_match, alt, path) \<in> set refs.
           find_file_by_basename dir (path_name path) = Inr None \<longrightarrow>
           path_name path \<in> set (missing_files st))"
proof (intro allI impI)
  fix st
  assume st: "plan_references dir no_rename refs = Inr st"
  have p: "processed_files st
     = (\<lambda>(file_path, new_name, idx). file_name file_path) ` set (files_to_process st)"
    by (simp add: plan_processed [OF st] case_prod_unfold)
  have u: "unused_files dir st
     = {n. (n, File) \<in> set dir}
       - (\<lambda>(file_path, new_name, idx). file_name file_path) ` set (files_to_process st)"
    by (simp only: unused_files_def all_files_eq p)
  have m: "set (missing_files st) \<inter> processed_files st = {}"
    using missing_not_found [OF st] processed_found [OF st] by blast
  have d: "unused_files dir st \<inter> processed_files st = {}"
    by (auto simp: unused_files_def)
  have a: "\<forall>n. (n, File) \<in> set dir \<and> n \<notin> processed_files st \<longrightarrow> n \<in> unused_files dir st"
    by (simp add: unused_files_def all_files_eq)
  have n: "\<forall>f \<in> set (missing_files st). find_file_by_basename dir f = Inr None"
    using missing_not_found [OF st] by blast
  have r: "\<forall>(full_match, alt, path) \<in> set refs.
           find_file_by_basename dir (path_name path) = Inr None \<longrightarrow>
           path_name path \<in> set (missing_files st)"
    using not_found_missing [OF st] by blast
  from u p m d a n r show "unused_files dir st
       = {n. (n, File) \<in> set dir}
         - (\<lambda>(file_path, new_name, idx). file_name file_path) ` set (files_to_process st)
     \<and> processed_files st
         = (\<lambda>(file_path, new_name, idx). file_name file_path) ` set (files_to_process st)
     \<and> set (missing_files st) \<inter> processed_files st = {}
     \<and> unused_files dir st \<inter> processed_files st = {}
     \<and> (\<forall>n. (n, File) \<in> set dir \<and> n \<notin> processed_files st \<longrightarrow> n \<in> unused_files dir st)
     \<and> (\<forall>f \<in> set (missing_files st). find_file_by_basename dir f = Inr None)
     \<and> (\<forall>(full_match, alt, path) \<in> set refs.
           find_file_by_basename dir (path_name path) = Inr None \<longrightarrow>
           path_name path \<in> set (missing_files st))"
    by (intro conjI)
qed

theorem unused_missing_disjoint_witness:
  "plan_references [(''b.png'', File), (''a.jpeg'', File), (''c.mov'', File), (''d'', Other)] False
      [(''![x](a.jpg)'', ''x'', ''a.jpg''), (''![y](zz.gif)'', ''y'', ''zz.gif'')]
     = Inr \<lparr>files_to_process = [(Entry ''a.jpeg'', ''img_01.webp'', 1)],
            processed_files = {''a.jpeg''}, missing_files = [''zz.gif''],
            skipped_videos = [], unknown_types = []\<rparr>
   \<and> unused_files [(''b.png'', File), (''a.jpeg'', File), (''c.mov'', File), (''d'', Other)]
        \<lparr>files_to_process = [(Entry ''a.jpeg'', ''img_01.webp'', 1)],
         processed_files = {''a.jpeg''}, missing_files = [''zz.gif''],
         skipped_videos = [], unknown_types = []\<rparr>
       = {''b.png'', ''c.mov''}
   \<and> {n. (n, File) \<in> set [(''b.png'', File), (''a.jpeg'', File), (''c.mov'', File), (''d'', Other)]}
       - (\<lambda>(file_path, new_name, idx). file_name file_path)
           ` set [(Entry ''a.jpeg'', ''img_01.webp'', 1 :: nat)]
       = {''b.png'', ''c.mov''}
   \<and> {''zz.gif''} \<inter> {''a.jpeg''} = ({} :: string set)
   \<and> find_file_by_basename [(''b.png'', File), (''a.jpeg'', File), (''c.mov'', File), (''d'', Other)]
        ''zz.gif'' = Inr None"
proof -
  let ?D = "[(''b.png'', File), (''a.jpeg'', File), (''c.mov'', File), (''d'', Other)]"
  let ?R = "[(''![x](a.jpg)'', ''x'', ''a.jpg''), (''![y](zz.gif)'', ''y'', ''zz.gif'')]"
  let ?st = "\<lparr>files_to_process = [(Entry ''a.jpeg'', ''img_01.webp'', 1)],
            processed_files = {''a.jpeg''}, missing_files = [''zz.gif''],
            skipped_videos = [], unknown_types = []\<rparr>"
  have p: "plan_references ?D False ?R = Inr ?st" by code_simp
  have v: "unused_files ?D ?st = {''b.png'', ''c.mov''}" by code_simp
  note t = unused_missing_disjoint [of ?D False ?R, rule_format, OF p]
  from t have u: "unused_files ?D ?st
       = {n. (n, File) \<in> set ?D}
         - (\<lambda>(file_path, new_name, idx). file_name file_path) ` set (files_to_process ?st)"
    by (rule conjunct1)
  from t have m: "set (missing_files ?st) \<inter> processed_files ?st = {}"
    by (elim conjE)
  from t have n: "\<forall>f \<in> set (missing_files ?st). find_file_by_basename ?D f = Inr None"
    by (elim conjE)
  from u v have u': "{n. (n, File) \<in> set ?D}
       - (\<lambda>(file_path, new_name, idx). file_name file_path)
           ` set [(Entry ''a.jpeg'', ''img_01.webp'', 1 :: nat)]
       = {''b.png'', ''c.mov''}"
    by simp
  from m have m': "{''zz.gif''} \<inter> {''a.jpeg''} = ({} :: string set)" by simp
  from n have n': "find_file_by_basename ?D ''zz.gif'' = Inr None" by simp
  from p v u' m' n' show ?thesis by (intro conjI)
qed


section \<open>Runs\<close>

text \<open>
  C1, the code at a failing input. The markdown holds two references; the first has no
  attachment, the second resolves and is planned as \<^verbatim>\<open>img_02.webp\<close>. The rewrite loop
  pairs references and plan entries by position, so the only plan entry is paired with
  the first reference: the unresolved reference \<^verbatim>\<open>![a](x.jpg)\<close> is rewritten to the name
  planned for the second, and the resolved reference \<^verbatim>\<open>![b](y.jpg)\<close> is left as it was.
\<close>

theorem rewrite_pairs_by_position:
  "process_post (\<lambda>_ _. Inr (16, 1)) (\<lambda>_. True) (\<lambda>_. False)
     \<lparr>pd_path = ''post'', pd_exists = True, pd_is_dir = True,
      index_md_exists = True,
      md_files = [(''index.md'', Inr ''![a](x.jpg) ![b](y.jpg)'')],
      attachments = Listing [(''y.jpg'', File)]\<rparr>
     ''out'' None False False False True
   = \<lparr>outcome = Inr True,
      events = [Mkdir ''out'',
                Transcode (Entry ''y.jpg'') ''out'' ''img_02.webp'',
                WriteMarkdown ''out'' ''index.md'' ''![a](img_02.webp) ![b](y.jpg)''],
      preview = [],
      image_results = [ImageOk ''y.jpg'' ''img_02.webp'' (Converted ''JPEG'') 16 1 93],
      total_original_size = 16, total_new_size = 1\<rparr>"
  by code_simp








lemma rows_perform:
  "rows evs = [] \<Longrightarrow> rows (fst (perform refused evs)) = []"
proof (induction evs)
  case Nil
  then show ?case by simp
next
  case (Cons ev evs)
  then show ?case by (cases ev) (auto simp: case_prod_unfold)
qed





























text \<open>
  Runs that raise. The final component of a referenced path has 256 bytes: the resolver
  raises in the planning loop, in dry-run mode too. The markdown file is not UTF-8. The
  output directory cannot be created. Standard output does not encode the name of an
  unused file: the statistics block raises after everything has been written.
\<close>

lemma process_post_raises:
  "outcome (process_post (\<lambda>p n. Inr (16, 1)) (\<lambda>n. True) (\<lambda>ev. False)
      \<lparr>pd_path = ''post'', pd_exists = True, pd_is_dir = True,
      index_md_exists = True,
       md_files = [(''index.md'', Inr (''![a]('' @ replicate 256 CHR ''a'' @ '')''))],
       attachments = Listing [(''y.jpg'', File)]\<rparr>
      ''out'' None True False False True) = Inl OSError"
  "outcome (process_post (\<lambda>p n. Inr (16, 1)) (\<lambda>n. True) (\<lambda>ev. False)
      \<lparr>pd_path = ''post'', pd_exists = True, pd_is_dir = True,
      index_md_exists = True,
       md_files = [(''index.md'', Inl UnicodeDecodeError)],
       attachments = Listing [(''y.jpg'', File)]\<rparr>
      ''out'' None True False False True) = Inl UnicodeDecodeError"
  "process_post (\<lambda>p n. Inr (16, 1)) (\<lambda>n. True) (\<lambda>ev. ev = Mkdir ''out'')
      \<lparr>pd_path = ''post'', pd_exists = True, pd_is_dir = True,
      index_md_exists = True,
       md_files = [(''index.md'', Inr ''![b](y.jpg)'')],
       attachments = Listing [(''y.jpg'', File)]\<rparr>
      ''out'' None False False False True
    = \<lparr>outcome = Inl OSError, events = [], preview = [], image_results = [],
       total_original_size = 0, total_new_size = 0\<rparr>"
  "process_post (\<lambda>p n. Inr (16, 1)) (\<lambda>n. True) (\<lambda>ev. ev = Print ''z.png'')
      \<lparr>pd_path = ''post'', pd_exists = True, pd_is_dir = True,
      index_md_exists = True,
       md_files = [(''index.md'', Inr ''![b](y.jpg)'')],
       attachments = Listing [(''y.jpg'', File), (''z.png'', File)]\<rparr>
      ''out'' None False False False True
    = \<lparr>outcome = Inl UnicodeEncodeError,
       events = [Mkdir ''out'', Transcode (Entry ''y.jpg'') ''out'' ''img_01.webp'',
                 WriteMarkdown ''out'' ''index.md'' ''![b](img_01.webp)''],
       preview = [],
       image_results = [ImageOk ''y.jpg'' ''img_01.webp'' (Converted ''JPEG'') 16 1 93],
       total_original_size = 16, total_new_size = 1\<rparr>"
  by code_simp+


section \<open>Rounding errors of the float operations\<close>

text \<open>
  Each operation returns its exact result with a relative error of \<open>2 powr - 53\<close> at most.
\<close>

lemma two_powr_nat: "0 \<le> k \<Longrightarrow> real_of_int (2 ^ nat k) = 2 powr real_of_int k"
  by (simp add: powr_realpow [symmetric])

lemma bit_length_pos: "0 < n \<Longrightarrow> 0 < bit_length n"
  by (induction n rule: bit_length.induct) (subst bit_length.simps, auto simp: bit_length.simps)

lemma bit_length_nonneg: "0 \<le> bit_length n"
proof (induction n rule: bit_length.induct)
  case (1 n)
  then show ?case by (subst bit_length.simps) auto
qed

lemma bit_length_bounds:
  "0 < n \<Longrightarrow> 2 ^ nat (bit_length n - 1) \<le> n \<and> n < 2 ^ nat (bit_length n)"
proof (induction n rule: bit_length.induct)
  case (1 n)
  show ?case
  proof (cases "n div 2 = 0")
    case True
    with 1(2) have "n = 1" by presburger
    then show ?thesis by (simp add: bit_length.simps)
  next
    case False
    with 1(2) have pos: "0 < n div 2" by presburger
    let ?k = "bit_length (n div 2)"
    from 1(1) pos 1(2) have ih: "2 ^ nat (?k - 1) \<le> n div 2" "n div 2 < 2 ^ nat ?k"
      by auto
    have k: "0 < ?k" using pos by (rule bit_length_pos)
    have bl: "bit_length n = ?k + 1" using 1(2) by (subst bit_length.simps) simp
    have "nat ?k = Suc (nat (?k - 1))" using k by simp
    then have "(2::int) ^ nat ?k = 2 * 2 ^ nat (?k - 1)" by simp
    with ih(1) have lo: "2 ^ nat ?k \<le> n" by presburger
    have "nat (?k + 1) = Suc (nat ?k)" using k by simp
    then have "(2::int) ^ nat (?k + 1) = 2 * 2 ^ nat ?k" by simp
    with ih(2) have hi: "n < 2 ^ nat (?k + 1)" by presburger
    from lo hi show ?thesis by (simp add: bl)
  qed
qed

lemma bit_length_real:
  assumes "0 < n"
  shows "2 powr (real_of_int (bit_length n) - 1) \<le> real_of_int n"
    and "real_of_int n < 2 powr real_of_int (bit_length n)"
proof -
  from bit_length_bounds [OF assms]
  have a: "2 ^ nat (bit_length n - 1) \<le> n" and b: "n < 2 ^ nat (bit_length n)" by simp_all
  have p: "0 \<le> bit_length n - 1" using bit_length_pos [OF assms] by simp
  have "2 powr (real_of_int (bit_length n) - 1) = 2 powr real_of_int (bit_length n - 1)"
    by simp
  also have "\<dots> = real_of_int (2 ^ nat (bit_length n - 1))"
    by (rule two_powr_nat [OF p, symmetric])
  also have "\<dots> \<le> real_of_int n"
    using a by (rule iffD2 [OF of_int_le_iff])
  finally show "2 powr (real_of_int (bit_length n) - 1) \<le> real_of_int n" .
  have "real_of_int n < real_of_int (2 ^ nat (bit_length n))"
    using b by (rule iffD2 [OF of_int_less_iff])
  also have "\<dots> = 2 powr real_of_int (bit_length n)"
    by (rule two_powr_nat [OF bit_length_nonneg])
  finally show "real_of_int n < 2 powr real_of_int (bit_length n)" .
qed

lemma round_half_even_error:
  assumes "0 < den"
  shows "\<bar>real_of_int (round_half_even num den) - real_of_int num / real_of_int den\<bar> \<le> 1 / 2"
proof -
  define d where "d = num div den"
  define r where "r = num mod den"
  have n: "num = d * den + r" by (simp add: d_def r_def)
  have r: "0 \<le> r" "r < den" using assms by (simp_all add: r_def)
  have q: "real_of_int num / real_of_int den = real_of_int d + real_of_int r / real_of_int den"
    using assms by (simp add: n field_simps)
  have rd: "0 \<le> real_of_int r / real_of_int den" "real_of_int r / real_of_int den < 1"
    using r assms by simp_all
  consider "2 * r < den" | "den < 2 * r" | "2 * r = den" by linarith
  then show ?thesis
  proof cases
    case 1
    then have "round_half_even num den = d"
      by (simp add: round_half_even_def d_def r_def Let_def)
    moreover have "real_of_int r / real_of_int den \<le> 1 / 2"
    proof -
      from 1 have "real_of_int (2 * r) < real_of_int den" by (rule iffD2 [OF of_int_less_iff])
      then show ?thesis using assms by (simp add: field_simps)
    qed
    ultimately show ?thesis using q rd by simp
  next
    case 2
    then have "round_half_even num den = d + 1"
      by (simp add: round_half_even_def d_def r_def Let_def)
    moreover have "1 / 2 \<le> real_of_int r / real_of_int den"
    proof -
      from 2 have "real_of_int den < real_of_int (2 * r)" by (rule iffD2 [OF of_int_less_iff])
      then show ?thesis using assms by (simp add: field_simps)
    qed
    ultimately show ?thesis using q rd by simp
  next
    case 3
    then have "round_half_even num den = d \<or> round_half_even num den = d + 1"
      by (simp add: round_half_even_def d_def r_def Let_def)
    moreover have "real_of_int r / real_of_int den = 1 / 2"
    proof -
      from 3 have "real_of_int (2 * r) = real_of_int den" by simp
      then show ?thesis using assms by (simp add: field_simps)
    qed
    ultimately show ?thesis using q by auto
  qed
qed

lemma round_half_even_nonneg:
  assumes "0 < den" "0 \<le> num"
  shows "0 \<le> round_half_even num den"
proof -
  have "0 \<le> num div den" using assms by (simp add: pos_imp_zdiv_nonneg_iff)
  then show ?thesis by (simp add: round_half_even_def Let_def)
qed

lemma round_frac_error:
  assumes q: "0 < q"
  shows "\<bar>valof (round_frac p q) - real_of_int p / real_of_int q\<bar>
           \<le> \<bar>real_of_int p / real_of_int q\<bar> * 2 powr (- 53)"
proof (cases "p = 0")
  case True
  then show ?thesis by (simp add: round_frac_def valof_def)
next
  case False
  define a where "a = \<bar>p\<bar>"
  define e where "e = bit_length a - bit_length q - 53"
  define num where "num = (if e < 0 then a * 2 ^ nat (- e) else a)"
  define den where "den = (if e < 0 then q else q * 2 ^ nat e)"
  define e' where "e' = (if 2 ^ 53 * den \<le> num then e + 1 else e)"
  define den' where "den' = (if 2 ^ 53 * den \<le> num then 2 * den else den)"
  define n where "n = round_half_even num den'"
  define Y where "Y = real_of_int num / real_of_int den'"
  define A where "A = real_of_int a / real_of_int q"
  have rf: "round_frac p q = (sgn p * n, e')"
    using False
    by (simp add: round_frac_def Let_def a_def e_def num_def den_def e'_def den'_def n_def)
  have a: "0 < a" using False by (simp add: a_def)
  have den: "0 < den" using q by (simp add: den_def)
  have den': "0 < den'" using den by (simp add: den'_def)
  have A: "0 < A" using a q by (simp add: A_def)
  have y: "real_of_int num / real_of_int den = A * 2 powr (- real_of_int e)"
  proof (cases "e < 0")
    case True
    then have "real_of_int (2 ^ nat (- e)) = 2 powr real_of_int (- e)"
      by (intro two_powr_nat) simp
    then have "real_of_int num = real_of_int a * 2 powr (- real_of_int e)"
      using True by (simp add: num_def)
    moreover have "den = q" using True by (simp add: den_def)
    ultimately show ?thesis by (simp add: A_def)
  next
    case False
    then have "real_of_int (2 ^ nat e) = 2 powr real_of_int e"
      by (intro two_powr_nat) simp
    then have "real_of_int den = real_of_int q * 2 powr real_of_int e"
      using False by (simp add: den_def)
    moreover have "num = a" using False by (simp add: num_def)
    ultimately show ?thesis by (simp add: A_def powr_minus field_simps)
  qed
  have y': "Y = A * 2 powr (- real_of_int e')"
  proof (cases "2 ^ 53 * den \<le> num")
    case True
    then have "Y = (real_of_int num / real_of_int den) / 2"
      by (simp add: Y_def den'_def)
    also have "\<dots> = A * (2 powr (- real_of_int e) * 2 powr (- 1))"
      by (simp add: y powr_minus)
    also have "2 powr (- real_of_int e) * 2 powr (- 1) = 2 powr (- real_of_int e - 1)"
      by (simp add: powr_diff powr_minus)
    also have "- real_of_int e - 1 = - real_of_int (e + 1)" by simp
    finally show ?thesis using True by (simp only: e'_def if_True)
  next
    case False
    then show ?thesis by (simp add: Y_def den'_def e'_def y)
  qed
  have lower: "2 powr 52 \<le> Y"
  proof (cases "2 ^ 53 * den \<le> num")
    case True
    then have "real_of_int (2 ^ 53 * den) \<le> real_of_int num"
      by (rule iffD2 [OF of_int_le_iff])
    then have "2 ^ 53 * real_of_int den \<le> real_of_int num" by simp
    then have "2 ^ 52 \<le> real_of_int num / (2 * real_of_int den)"
      using den by (simp add: field_simps)
    then show ?thesis using True by (simp add: Y_def den'_def)
  next
    case False
    have "2 powr (real_of_int (bit_length a) - 1) \<le> real_of_int a"
      by (rule bit_length_real(1) [OF a])
    moreover have "real_of_int q < 2 powr real_of_int (bit_length q)"
      by (rule bit_length_real(2) [OF q])
    ultimately have "2 powr (real_of_int (bit_length a) - 1) / 2 powr real_of_int (bit_length q) \<le> A"
      unfolding A_def using q a by (intro frac_le) simp_all
    then have "2 powr (real_of_int (bit_length a) - 1 - real_of_int (bit_length q)) \<le> A"
      by (simp add: powr_diff)
    then have "2 powr (real_of_int (bit_length a) - 1 - real_of_int (bit_length q))
                 * 2 powr (- real_of_int e) \<le> A * 2 powr (- real_of_int e)"
      by (intro mult_right_mono) simp_all
    moreover have "2 powr (real_of_int (bit_length a) - 1 - real_of_int (bit_length q))
                 * 2 powr (- real_of_int e) = 2 powr 52"
      by (simp add: powr_add [symmetric] e_def)
    ultimately have "2 powr 52 \<le> A * 2 powr (- real_of_int e)" by simp
    with False show ?thesis by (simp add: Y_def den'_def y)
  qed
  have err: "\<bar>real_of_int n - Y\<bar> \<le> 1 / 2"
    unfolding n_def Y_def by (rule round_half_even_error [OF den'])
  have AY: "A = Y * 2 powr real_of_int e'"
    by (simp add: y' powr_minus field_simps)
  have pq: "real_of_int p / real_of_int q = real_of_int (sgn p) * A"
    by (simp add: A_def a_def sgn_if)
  have sg: "\<bar>real_of_int (sgn p)\<bar> = 1" using False by (simp add: sgn_if)
  have "valof (round_frac p q) - real_of_int p / real_of_int q
          = real_of_int (sgn p) * ((real_of_int n - Y) * 2 powr real_of_int e')"
    by (simp add: rf valof_def pq AY algebra_simps)
  then have "\<bar>valof (round_frac p q) - real_of_int p / real_of_int q\<bar>
          = \<bar>real_of_int n - Y\<bar> * 2 powr real_of_int e'"
    by (simp add: abs_mult sg)
  also have "\<dots> \<le> (1 / 2) * 2 powr real_of_int e'"
    using err by (intro mult_right_mono) simp_all
  also have "(1 / 2) * 2 powr real_of_int e' = (2 powr 52 * 2 powr (- 53)) * 2 powr real_of_int e'"
    by (simp add: powr_add [symmetric] powr_minus)
  also have "\<dots> \<le> (Y * 2 powr (- 53)) * 2 powr real_of_int e'"
    using lower by (intro mult_right_mono) simp_all
  also have "\<dots> = \<bar>real_of_int p / real_of_int q\<bar> * 2 powr (- 53)"
  proof -
    have "\<bar>real_of_int p / real_of_int q\<bar> = A"
      using A by (simp add: pq abs_mult sg)
    then show ?thesis by (simp add: AY)
  qed
  finally show ?thesis .
qed

lemma round_dyadic_error:
  "\<bar>valof (round_dyadic m e) - real_of_int m * 2 powr real_of_int e\<bar>
     \<le> \<bar>real_of_int m * 2 powr real_of_int e\<bar> * 2 powr (- 53)"
proof (cases "e < 0")
  case True
  have p: "real_of_int (2 ^ nat (- e)) = 2 powr real_of_int (- e)"
    using True by (intro two_powr_nat) simp
  have "real_of_int m / real_of_int (2 ^ nat (- e)) = real_of_int m * 2 powr real_of_int e"
    unfolding p by (simp add: powr_minus field_simps)
  moreover have "(0::int) < 2 ^ nat (- e)" by simp
  ultimately show ?thesis
    using round_frac_error [of "2 ^ nat (- e)" m] True by (simp only: round_dyadic_def if_True)
next
  case False
  have p: "real_of_int (2 ^ nat e) = 2 powr real_of_int e"
    using False by (intro two_powr_nat) simp
  have "real_of_int (m * 2 ^ nat e) / real_of_int 1 = real_of_int m * 2 powr real_of_int e"
    using p by simp
  then show ?thesis
    using round_frac_error [of 1 "m * 2 ^ nat e"] False by (simp only: round_dyadic_def if_False)
qed

lemma float_of_int_error:
  "\<bar>valof (float_of_int n) - real_of_int n\<bar> \<le> \<bar>real_of_int n\<bar> * 2 powr (- 53)"
  using round_frac_error [of 1 n] by (simp add: float_of_int_def)

lemma py_truediv_error:
  assumes "b \<noteq> 0"
  shows "\<exists>q. py_truediv a b = Inr q
           \<and> \<bar>valof q - real_of_int a / real_of_int b\<bar>
               \<le> \<bar>real_of_int a / real_of_int b\<bar> * 2 powr (- 53)"
proof -
  have "real_of_int (a * sgn b) / real_of_int \<bar>b\<bar> = real_of_int a / real_of_int b"
    using assms by (simp add: sgn_if)
  moreover have "0 < \<bar>b\<bar>" using assms by simp
  ultimately have "\<bar>valof (round_frac (a * sgn b) \<bar>b\<bar>) - real_of_int a / real_of_int b\<bar>
               \<le> \<bar>real_of_int a / real_of_int b\<bar> * 2 powr (- 53)"
    using round_frac_error [of "\<bar>b\<bar>" "a * sgn b"] by simp
  then show ?thesis using assms by (simp add: py_truediv_def)
qed

lemma float_mul_error:
  "\<bar>valof (float_mul x y) - valof x * valof y\<bar> \<le> \<bar>valof x * valof y\<bar> * 2 powr (- 53)"
proof -
  have "real_of_int (fst x * fst y) * 2 powr real_of_int (snd x + snd y) = valof x * valof y"
    by (simp add: valof_def powr_add)
  then show ?thesis
    using round_dyadic_error [of "fst x * fst y" "snd x + snd y"] by (simp add: float_mul_def)
qed

lemma float_sub_error:
  "\<bar>valof (float_sub x y) - (valof x - valof y)\<bar> \<le> \<bar>valof x - valof y\<bar> * 2 powr (- 53)"
proof -
  define e where "e = min (snd x) (snd y)"
  have px: "real_of_int (2 ^ nat (snd x - e)) = 2 powr real_of_int (snd x - e)"
    by (intro two_powr_nat) (simp add: e_def)
  have py: "real_of_int (2 ^ nat (snd y - e)) = 2 powr real_of_int (snd y - e)"
    by (intro two_powr_nat) (simp add: e_def)
  have "real_of_int (fst x * 2 ^ nat (snd x - e) - fst y * 2 ^ nat (snd y - e)) * 2 powr real_of_int e
          = real_of_int (fst x) * (2 powr real_of_int (snd x - e) * 2 powr real_of_int e)
            - real_of_int (fst y) * (2 powr real_of_int (snd y - e) * 2 powr real_of_int e)"
    using px py by (simp add: algebra_simps)
  also have "\<dots> = valof x - valof y"
    by (simp add: valof_def powr_add [symmetric])
  finally show ?thesis
    using round_dyadic_error [of "fst x * 2 ^ nat (snd x - e) - fst y * 2 ^ nat (snd y - e)" e]
    by (simp add: float_sub_def Let_def e_def)
qed

lemma valof_sign: "0 \<le> valof x \<longleftrightarrow> 0 \<le> fst x"
  by (simp add: valof_def zero_le_mult_iff)

lemma py_int_nonneg:
  assumes "0 \<le> valof x"
  shows "py_int x = \<lfloor>valof x\<rfloor>"
proof -
  from assms have m: "0 \<le> fst x" by (simp add: valof_sign)
  show ?thesis
  proof (cases "0 \<le> snd x")
    case True
    then have "real_of_int (2 ^ nat (snd x)) = 2 powr real_of_int (snd x)"
      by (rule two_powr_nat)
    then have "valof x = real_of_int (fst x * 2 ^ nat (snd x))"
      by (simp add: valof_def)
    then have "\<lfloor>valof x\<rfloor> = fst x * 2 ^ nat (snd x)"
      by (simp only: floor_of_int)
    with True show ?thesis by (simp add: py_int_def)
  next
    case False
    then have "real_of_int (2 ^ nat (- snd x)) = 2 powr real_of_int (- snd x)"
      by (intro two_powr_nat) simp
    then have "valof x = real_of_int (fst x) / real_of_int (2 ^ nat (- snd x))"
      by (simp add: valof_def powr_minus field_simps)
    then have "\<lfloor>valof x\<rfloor> = fst x div 2 ^ nat (- snd x)"
      by (simp only: floor_divide_of_int_eq)
    moreover have "sgn (fst x) * (\<bar>fst x\<bar> div 2 ^ nat (- snd x)) = fst x div 2 ^ nat (- snd x)"
      using m by (cases "fst x = 0") (simp_all add: sgn_if)
    ultimately show ?thesis using False by (simp add: py_int_def)
  qed
qed

lemma ulp_value: "(2::real) powr (- 53) = 1 / 2 ^ 53"
  by (simp add: powr_minus inverse_eq_divide)

lemma ulp_cubed:
  "(1 + (2::real) powr (- 53)) ^ 3 \<le> 1 + 4 * 2 powr (- 53)"
  "1 - 4 * (2::real) powr (- 53) \<le> (1 - 2 powr (- 53)) ^ 3"
  unfolding ulp_value by (simp_all add: power3_eq_cube field_simps)

lemma rel_error_bounds:
  assumes "\<bar>v - x\<bar> \<le> \<bar>x\<bar> * u" "0 \<le> (x::real)"
  shows "x * (1 - u) \<le> v" "v \<le> x * (1 + u)"
  using assms by (simp_all add: abs_le_iff algebra_simps)

lemma floor_near_quotient:
  fixes v :: real
  assumes D: "0 < D" and v: "\<bar>v - real_of_int Y / real_of_int D\<bar> < 1 / real_of_int D"
  shows "Y div D - 1 \<le> \<lfloor>v\<rfloor>" "\<lfloor>v\<rfloor> \<le> Y div D" "\<not> D dvd Y \<Longrightarrow> \<lfloor>v\<rfloor> = Y div D"
proof -
  define k where "k = Y div D"
  define r where "r = Y mod D"
  have Y: "Y = k * D + r" by (simp add: k_def r_def)
  have r: "0 \<le> r" "r < D" using D by (simp_all add: r_def)
  have q: "real_of_int Y / real_of_int D = real_of_int k + real_of_int r / real_of_int D"
    using D by (simp add: Y field_simps)
  have r1: "real_of_int r + 1 \<le> real_of_int D" using r by linarith
  have up: "real_of_int r / real_of_int D + 1 / real_of_int D \<le> 1"
    using D r1 by (simp add: field_simps)
  have lo: "0 \<le> real_of_int r / real_of_int D" using D r by simp
  have dpos: "0 < 1 / real_of_int D" "1 / real_of_int D \<le> 1" using D by simp_all
  from v q have v1: "v < real_of_int k + real_of_int r / real_of_int D + 1 / real_of_int D"
    and v2: "real_of_int k + real_of_int r / real_of_int D - 1 / real_of_int D < v"
    by (simp_all add: abs_less_iff)
  from v1 up have "v < real_of_int k + 1" by linarith
  then have "v < real_of_int (k + 1)" by simp
  then have "\<lfloor>v\<rfloor> < k + 1" by (simp only: floor_less_iff)
  then show "\<lfloor>v\<rfloor> \<le> Y div D" by (simp add: k_def)
  from v2 lo dpos have "real_of_int k - 1 < v" by linarith
  then have "real_of_int (k - 1) \<le> v" by simp
  then have "k - 1 \<le> \<lfloor>v\<rfloor>" by (simp only: le_floor_iff)
  then show "Y div D - 1 \<le> \<lfloor>v\<rfloor>" by (simp add: k_def)
  show "\<lfloor>v\<rfloor> = Y div D" if "\<not> D dvd Y"
  proof -
    from that have "r \<noteq> 0" by (simp add: r_def dvd_eq_mod_eq_0)
    with r have "1 \<le> real_of_int r" by linarith
    then have "1 / real_of_int D \<le> real_of_int r / real_of_int D"
      using D by (simp add: field_simps)
    with v2 have "real_of_int k \<le> v" by linarith
    then have "k \<le> \<lfloor>v\<rfloor>" by (simp only: le_floor_iff)
    with \<open>\<lfloor>v\<rfloor> < k + 1\<close> show ?thesis by (simp add: k_def)
  qed
qed

lemma scaled_side:
  assumes s: "0 \<le> s" "s \<le> l" and m: "0 < m" and l: "0 < l" and small: "m * l < 2 ^ 51"
  shows "\<exists>q. py_truediv m l = Inr q
     \<and> s * m div l - 1 \<le> py_int (float_mul (float_of_int s) q)
     \<and> py_int (float_mul (float_of_int s) q) \<le> s * m div l
     \<and> (\<not> l dvd s * m \<longrightarrow> py_int (float_mul (float_of_int s) q) = s * m div l)"
proof -
  define u where "u = (2::real) powr (- 53)"
  have u: "0 < u" "u < 1" by (simp_all add: u_def ulp_value)
  from l have "l \<noteq> 0" by simp
  from py_truediv_error [OF this, of m] obtain q where q: "py_truediv m l = Inr q"
    and qe: "\<bar>valof q - real_of_int m / real_of_int l\<bar> \<le> \<bar>real_of_int m / real_of_int l\<bar> * u"
    by (auto simp: u_def)
  define R where "R = real_of_int m / real_of_int l"
  define S where "S = real_of_int s"
  define hs where "hs = valof (float_of_int s)"
  define v where "v = valof (float_mul (float_of_int s) q)"
  have R: "0 < R" using m l by (simp add: R_def)
  have S: "0 \<le> S" using s by (simp add: S_def)
  from rel_error_bounds [OF qe [folded R_def]] R
  have q1: "R * (1 - u) \<le> valof q" and q2: "valof q \<le> R * (1 + u)" by simp_all
  have "\<bar>hs - S\<bar> \<le> \<bar>S\<bar> * u"
    unfolding hs_def S_def u_def by (rule float_of_int_error)
  from rel_error_bounds [OF this S]
  have h1: "S * (1 - u) \<le> hs" and h2: "hs \<le> S * (1 + u)" by simp_all
  have q0: "0 \<le> valof q" using q1 R u by (smt (verit) mult_nonneg_nonneg)
  have h0: "0 \<le> hs" using h1 S u by (smt (verit) mult_nonneg_nonneg)
  have p0: "0 \<le> hs * valof q" using q0 h0 by simp
  have "\<bar>v - hs * valof q\<bar> \<le> \<bar>hs * valof q\<bar> * u"
    unfolding v_def hs_def u_def by (rule float_mul_error)
  from rel_error_bounds [OF this p0]
  have v1: "hs * valof q * (1 - u) \<le> v" and v2: "v \<le> hs * valof q * (1 + u)" by simp_all
  have v0: "0 \<le> v" using v1 p0 u by (smt (verit) mult_nonneg_nonneg)
  have "hs * valof q \<le> (S * (1 + u)) * (R * (1 + u))"
    using h2 q2 h0 q0 by (intro mult_mono) simp_all
  then have "hs * valof q * (1 + u) \<le> (S * (1 + u)) * (R * (1 + u)) * (1 + u)"
    using u by (intro mult_right_mono) simp_all
  with v2 have "v \<le> S * R * (1 + u) ^ 3" by (simp add: power3_eq_cube algebra_simps)
  also have "\<dots> \<le> S * R * (1 + 4 * u)"
    using S R ulp_cubed(1) by (intro mult_left_mono) (simp_all add: u_def)
  finally have up: "v \<le> S * R + 4 * u * (S * R)" by (simp add: algebra_simps)
  have "0 \<le> R * (1 - u)" using R u by simp
  then have "(S * (1 - u)) * (R * (1 - u)) \<le> hs * valof q"
    using h1 q1 h0 by (intro mult_mono) simp_all
  then have "(S * (1 - u)) * (R * (1 - u)) * (1 - u) \<le> hs * valof q * (1 - u)"
    using u by (intro mult_right_mono) simp_all
  with v1 have "S * R * (1 - u) ^ 3 \<le> v" by (simp add: power3_eq_cube algebra_simps)
  moreover have "S * R * (1 - 4 * u) \<le> S * R * (1 - u) ^ 3"
    using S R ulp_cubed(2) by (intro mult_left_mono) (simp_all add: u_def)
  ultimately have lo: "S * R - 4 * u * (S * R) \<le> v" by (simp add: algebra_simps)
  have SR: "S * R = real_of_int (s * m) / real_of_int l"
    by (simp add: S_def R_def)
  have "S * R \<le> real_of_int m"
  proof -
    have "S \<le> real_of_int l" using s by (simp add: S_def)
    then have "S * real_of_int m \<le> real_of_int l * real_of_int m"
      using m by (intro mult_right_mono) simp_all
    then show ?thesis using l by (simp add: R_def field_simps)
  qed
  moreover have "0 \<le> S * R" using S R by simp
  ultimately have "4 * u * (S * R) \<le> 4 * u * real_of_int m"
    using u by (intro mult_left_mono) simp_all
  also have "\<dots> < 1 / real_of_int l"
  proof -
    from small have "real_of_int (m * l) < real_of_int (2 ^ 51)"
      by (rule iffD2 [OF of_int_less_iff])
    then have "real_of_int m * real_of_int l < 2 ^ 51" by simp
    then have "4 * (1 / 2 ^ 53) * (real_of_int m * real_of_int l) < 1" by simp
    then show ?thesis using l by (simp add: u_def ulp_value field_simps)
  qed
  finally have "4 * u * (S * R) < 1 / real_of_int l" .
  with up lo have near: "\<bar>v - real_of_int (s * m) / real_of_int l\<bar> < 1 / real_of_int l"
    by (simp add: SR abs_less_iff)
  have pi: "py_int (float_mul (float_of_int s) q) = \<lfloor>v\<rfloor>"
    using v0 unfolding v_def by (rule py_int_nonneg)
  from floor_near_quotient [OF l near] q show ?thesis
    by (intro exI [of _ q]) (simp add: pi)
qed

lemma float_one: "valof (float_of_int 1) = 1"
proof -
  have "float_of_int 1 = (4503599627370496, - 52)" by code_simp
  then show ?thesis by (simp add: valof_def powr_minus)
qed

lemma float_hundred: "valof (float_of_int 100) = 100"
proof -
  have "float_of_int 100 = (7036874417766400, - 46)" by code_simp
  then show ?thesis by (simp add: valof_def powr_minus)
qed

lemma py_int_neg:
  assumes "valof x < 0"
  shows "py_int x = - \<lfloor>- valof x\<rfloor>"
proof -
  from assms have m: "fst x < 0"
    using valof_sign [of x] by simp
  show ?thesis
  proof (cases "0 \<le> snd x")
    case True
    then have "real_of_int (2 ^ nat (snd x)) = 2 powr real_of_int (snd x)"
      by (rule two_powr_nat)
    then have "- valof x = real_of_int (- (fst x * 2 ^ nat (snd x)))"
      by (simp add: valof_def)
    then have "\<lfloor>- valof x\<rfloor> = - (fst x * 2 ^ nat (snd x))"
      by (simp only: floor_of_int)
    with True show ?thesis by (simp add: py_int_def)
  next
    case False
    then have "real_of_int (2 ^ nat (- snd x)) = 2 powr real_of_int (- snd x)"
      by (intro two_powr_nat) simp
    then have "- valof x = real_of_int (- fst x) / real_of_int (2 ^ nat (- snd x))"
      by (simp add: valof_def powr_minus field_simps)
    then have "\<lfloor>- valof x\<rfloor> = (- fst x) div 2 ^ nat (- snd x)"
      by (simp only: floor_divide_of_int_eq)
    moreover have "sgn (fst x) * (\<bar>fst x\<bar> div 2 ^ nat (- snd x)) = - ((- fst x) div 2 ^ nat (- snd x))"
      using m by (simp add: sgn_if)
    ultimately show ?thesis using False by (simp add: py_int_def)
  qed
qed


section \<open>Resizing and the compression percentage\<close>

lemma compression_near:
  assumes o: "0 < orig" "orig < 2 ^ 43" and n: "0 \<le> new" "new < 2 ^ 43"
  shows "\<exists>q. py_truediv new orig = Inr q
     \<and> \<bar>valof (float_mul (float_sub (float_of_int 1) q) (float_of_int 100))
          - real_of_int (100 * (orig - new)) / real_of_int orig\<bar> < 1 / real_of_int orig"
proof -
  define u where "u = (2::real) powr (- 53)"
  have u: "0 < u" "u \<le> 1" by (simp_all add: u_def ulp_value)
  from o have "orig \<noteq> 0" by simp
  from py_truediv_error [OF this, of new] obtain q where q: "py_truediv new orig = Inr q"
    and qe: "\<bar>valof q - real_of_int new / real_of_int orig\<bar>
               \<le> \<bar>real_of_int new / real_of_int orig\<bar> * u"
    by (auto simp: u_def)
  define T where "T = real_of_int new / real_of_int orig"
  define vq where "vq = valof q"
  define vs where "vs = valof (float_sub (float_of_int 1) q)"
  define v where "v = valof (float_mul (float_sub (float_of_int 1) q) (float_of_int 100))"
  have T: "0 \<le> T" using o n by (simp add: T_def)
  have Tu: "T * u \<le> T" using T u by (simp add: mult_left_le)
  have "\<bar>T\<bar> = T" using T by simp
  with qe have e1: "\<bar>vq - T\<bar> \<le> T * u" unfolding T_def [symmetric] vq_def [symmetric] by simp
  with Tu have "\<bar>1 - vq\<bar> \<le> 1 + 2 * T" using T by linarith
  then have "\<bar>1 - vq\<bar> * u \<le> (1 + 2 * T) * u"
    using u by (intro mult_right_mono) simp_all
  moreover have "\<bar>vs - (1 - vq)\<bar> \<le> \<bar>1 - vq\<bar> * u"
    using float_sub_error [of "float_of_int 1" q] by (simp add: vs_def vq_def float_one u_def)
  ultimately have e2: "\<bar>vs - (1 - vq)\<bar> \<le> (1 + 2 * T) * u" by linarith
  have "(1 + 2 * T) * u + T * u = (1 + 3 * T) * u" by (simp add: algebra_simps)
  with e1 e2 have e3: "\<bar>vs - (1 - T)\<bar> \<le> (1 + 3 * T) * u"
    by linarith
  have "(1 + 3 * T) * u \<le> 1 + 3 * T" using T u by (simp add: mult_left_le)
  with e3 have "\<bar>vs\<bar> \<le> 2 + 4 * T" using T by linarith
  then have "\<bar>vs\<bar> * 100 * u \<le> (2 + 4 * T) * 100 * u"
    using u by (intro mult_right_mono) simp_all
  moreover have "\<bar>v - vs * 100\<bar> \<le> \<bar>vs * 100\<bar> * u"
    using float_mul_error [of "float_sub (float_of_int 1) q" "float_of_int 100"]
    by (simp add: v_def vs_def float_hundred u_def)
  ultimately have e4: "\<bar>v - vs * 100\<bar> \<le> (2 + 4 * T) * 100 * u"
    by (simp add: abs_mult)
  have e5: "\<bar>v - 100 * (1 - T)\<bar> \<le> 100 * u * (3 + 7 * T)"
  proof -
    define A where "A = (1 + 3 * T) * u"
    define B where "B = (2 + 4 * T) * 100 * u"
    have C: "B + 100 * A = 100 * u * (3 + 7 * T)"
      by (simp add: A_def B_def algebra_simps)
    have "\<bar>vs - (1 - T)\<bar> \<le> A" using e3 by (simp add: A_def)
    moreover have "\<bar>v - vs * 100\<bar> \<le> B" using e4 by (simp add: B_def)
    ultimately have "\<bar>v - 100 * (1 - T)\<bar> \<le> B + 100 * A"
      unfolding abs_le_iff by (auto simp: algebra_simps)
    then show ?thesis by (simp only: C)
  qed
  have y: "100 * (1 - T) = real_of_int (100 * (orig - new)) / real_of_int orig"
    using o by (simp add: T_def field_simps)
  have "100 * u * (3 + 7 * T) < 1 / real_of_int orig"
  proof -
    from o n have "3 * orig + 7 * new < 10 * 2 ^ 43" by linarith
    then have "real_of_int (3 * orig + 7 * new) < real_of_int (10 * 2 ^ 43)"
      by (rule iffD2 [OF of_int_less_iff])
    then have "3 * real_of_int orig + 7 * real_of_int new < 10 * 2 ^ 43" by simp
    then have "100 * (1 / 2 ^ 53) * (3 * real_of_int orig + 7 * real_of_int new) < 1"
      by simp
    moreover have "(3 + 7 * T) * real_of_int orig = 3 * real_of_int orig + 7 * real_of_int new"
      using o by (simp add: T_def field_simps)
    ultimately have "100 * u * ((3 + 7 * T) * real_of_int orig) < 1"
      by (simp add: u_def ulp_value)
    then show ?thesis using o by (simp add: field_simps)
  qed
  with e5 have "\<bar>v - 100 * (1 - T)\<bar> < 1 / real_of_int orig" by linarith
  with q show ?thesis unfolding y v_def by blast
qed

lemma compression_total: "\<exists>c. compression orig new = Inr c"
proof (cases "0 < orig")
  case True
  then have "orig \<noteq> 0" by simp
  from py_truediv_error [OF this, of new] obtain q where "py_truediv new orig = Inr q"
    by blast
  with True show ?thesis by (simp add: compression_def)
next
  case False
  then show ?thesis by (simp add: compression_def)
qed

lemma compression_shrunk:
  assumes o: "0 < orig" "orig < 2 ^ 43" and n: "0 \<le> new" "new \<le> orig"
  shows "\<exists>c. compression orig new = Inr c
     \<and> 100 * (orig - new) div orig - 1 \<le> c \<and> c \<le> 100 * (orig - new) div orig
     \<and> (\<not> orig dvd 100 * (orig - new) \<longrightarrow> c = 100 * (orig - new) div orig)"
proof -
  from n o have n2: "new < 2 ^ 43" by linarith
  from compression_near [OF o n(1) n2] obtain q where q: "py_truediv new orig = Inr q"
    and near: "\<bar>valof (float_mul (float_sub (float_of_int 1) q) (float_of_int 100))
          - real_of_int (100 * (orig - new)) / real_of_int orig\<bar> < 1 / real_of_int orig"
    by blast
  define x where "x = float_mul (float_sub (float_of_int 1) q) (float_of_int 100)"
  define Y where "Y = 100 * (orig - new)"
  have Y: "0 \<le> Y" using n by (simp add: Y_def)
  have c: "compression orig new = Inr (py_int x)"
    using o q by (simp add: compression_def x_def)
  have near': "\<bar>valof x - real_of_int Y / real_of_int orig\<bar> < 1 / real_of_int orig"
    using near by (simp only: x_def Y_def)
  show ?thesis
  proof (cases "0 \<le> valof x")
    case True
    then have "py_int x = \<lfloor>valof x\<rfloor>" by (rule py_int_nonneg)
    with floor_near_quotient [OF o(1) near'] c show ?thesis
      by (simp add: Y_def)
  next
    case False
    then have neg: "valof x < 0" by simp
    with near' have "real_of_int Y / real_of_int orig < 1 / real_of_int orig"
      by (simp add: abs_less_iff)
    then have "real_of_int Y < 1" using o by (simp add: field_simps)
    with Y have Y0: "Y = 0" by linarith
    from near' Y0 have "- valof x < 1 / real_of_int orig" by (simp add: abs_less_iff)
    moreover have "1 / real_of_int orig \<le> 1" using o by simp
    ultimately have "- valof x < 1" by linarith
    with neg have "\<lfloor>- valof x\<rfloor> = 0" by (simp add: floor_eq_iff)
    with neg have "py_int x = 0" by (simp add: py_int_neg)
    with c Y0 show ?thesis by (simp add: Y_def)
  qed
qed

lemma compression_grown:
  assumes o: "0 < orig" "orig < new" and n: "new < 2 ^ 43"
  shows "\<exists>c. compression orig new = Inr c
     \<and> - (100 * (new - orig) div orig) \<le> c \<and> c \<le> 1 - 100 * (new - orig) div orig
     \<and> (\<not> orig dvd 100 * (new - orig) \<longrightarrow> c = - (100 * (new - orig) div orig))"
proof -
  from o n have o2: "orig < 2 ^ 43" and n0: "0 \<le> new" by linarith+
  from compression_near [OF o(1) o2 n0 n] obtain q where q: "py_truediv new orig = Inr q"
    and near: "\<bar>valof (float_mul (float_sub (float_of_int 1) q) (float_of_int 100))
          - real_of_int (100 * (orig - new)) / real_of_int orig\<bar> < 1 / real_of_int orig"
    by blast
  define x where "x = float_mul (float_sub (float_of_int 1) q) (float_of_int 100)"
  define Y where "Y = 100 * (new - orig)"
  have Y: "1 \<le> Y" using o by (simp add: Y_def)
  have c: "compression orig new = Inr (py_int x)"
    using o q by (simp add: compression_def x_def)
  have "real_of_int (100 * (orig - new)) = - real_of_int Y" by (simp add: Y_def)
  with near have near': "\<bar>- valof x - real_of_int Y / real_of_int orig\<bar> < 1 / real_of_int orig"
    by (simp add: x_def abs_less_iff)
  have "1 / real_of_int orig \<le> real_of_int Y / real_of_int orig"
    using Y o by (simp add: field_simps)
  with near' have neg: "valof x < 0" by (simp add: abs_less_iff)
  then have "py_int x = - \<lfloor>- valof x\<rfloor>" by (rule py_int_neg)
  with floor_near_quotient [OF o(1) near'] c show ?thesis
    by (simp add: Y_def)
qed


text \<open>
  C2 (amended). When the larger of width and height does not exceed the maximum, the size is
  left as it is. When it does, the larger side (the height when both are equal) is set to
  the maximum and the other side to \<open>n\<close>, the value of \<^verbatim>\<open>int(other * (maximum / larger))\<close>
  computed in floats: the exact quotient \<open>other * maximum / larger\<close> truncated to an
  integer, not rounded to the nearest; when the exact quotient is a whole number \<open>n\<close> may
  be that number less one. The image is resized to that size when \<open>n\<close> is at least 1;
  for \<open>n = 0\<close> the resize raises \<^verbatim>\<open>ValueError\<close>. A 3000 by 2000 image with maximum 1500
  becomes 1500 by 1000. The second part is stated for a maximum and sides of at least 1
  with \<open>maximum * larger < 2 ^ 51\<close>.
\<close>

theorem resize_dims_truncates:
  "(max width height \<le> max_width \<longrightarrow> resize_dims max_width width height = Inr (width, height))
   \<and> (0 < max_width \<and> max_width < max width height \<and> 0 < width \<and> 0 < height
        \<and> max_width * max width height < 2 ^ 51 \<longrightarrow>
        (height < width \<longrightarrow>
           (\<exists>n. height * max_width div width - 1 \<le> n
               \<and> n \<le> height * max_width div width
               \<and> (\<not> width dvd height * max_width \<longrightarrow> n = height * max_width div width)
               \<and> resize_dims max_width width height
                   = (if 1 \<le> n then Inr (max_width, n) else Inl ValueError)))
        \<and> (width \<le> height \<longrightarrow>
           (\<exists>n. width * max_width div height - 1 \<le> n
               \<and> n \<le> width * max_width div height
               \<and> (\<not> height dvd width * max_width \<longrightarrow> n = width * max_width div height)
               \<and> resize_dims max_width width height
                   = (if 1 \<le> n then Inr (n, max_width) else Inl ValueError))))
   \<and> resize_dims 1500 3000 2000 = Inr (1500, 1000)"
proof (intro conjI impI)
  assume "max width height \<le> max_width"
  then show "resize_dims max_width width height = Inr (width, height)"
    by (simp add: resize_dims_def)
next
  assume a: "0 < max_width \<and> max_width < max width height \<and> 0 < width \<and> 0 < height
        \<and> max_width * max width height < 2 ^ 51"
    and b: "height < width"
  from a b have w: "0 < width" and s: "max_width * width < 2 ^ 51" and h: "0 \<le> height" "height \<le> width"
    and m: "0 < max_width"
    by (simp_all add: max_def)
  from scaled_side [OF h m w s] obtain q where q: "py_truediv max_width width = Inr q"
    and n: "height * max_width div width - 1 \<le> py_int (float_mul (float_of_int height) q)"
      "py_int (float_mul (float_of_int height) q) \<le> height * max_width div width"
      "\<not> width dvd height * max_width \<longrightarrow>
           py_int (float_mul (float_of_int height) q) = height * max_width div width"
    by blast
  from a b have c: "max width height > max_width" "width > height" by simp_all
  have "resize_dims max_width width height
          = (if 1 \<le> py_int (float_mul (float_of_int height) q)
             then Inr (max_width, py_int (float_mul (float_of_int height) q))
             else Inl ValueError)"
    using q c m by (auto simp: resize_dims_def img_resize_def)
  with n show "\<exists>n. height * max_width div width - 1 \<le> n
               \<and> n \<le> height * max_width div width
               \<and> (\<not> width dvd height * max_width \<longrightarrow> n = height * max_width div width)
               \<and> resize_dims max_width width height
                   = (if 1 \<le> n then Inr (max_width, n) else Inl ValueError)"
    by blast
next
  assume a: "0 < max_width \<and> max_width < max width height \<and> 0 < width \<and> 0 < height
        \<and> max_width * max width height < 2 ^ 51"
    and b: "width \<le> height"
  from a b have h: "0 < height" and s: "max_width * height < 2 ^ 51" and w: "0 \<le> width"
    and m: "0 < max_width"
    by (simp_all add: max_def)
  from scaled_side [OF w b m h s] obtain q where q: "py_truediv max_width height = Inr q"
    and n: "width * max_width div height - 1 \<le> py_int (float_mul (float_of_int width) q)"
      "py_int (float_mul (float_of_int width) q) \<le> width * max_width div height"
      "\<not> height dvd width * max_width \<longrightarrow>
           py_int (float_mul (float_of_int width) q) = width * max_width div height"
    by blast
  from a b have c: "max width height > max_width" "\<not> width > height" by simp_all
  have "resize_dims max_width width height
          = (if 1 \<le> py_int (float_mul (float_of_int width) q)
             then Inr (py_int (float_mul (float_of_int width) q), max_width)
             else Inl ValueError)"
    using q c m by (auto simp: resize_dims_def img_resize_def)
  with n show "\<exists>n. width * max_width div height - 1 \<le> n
               \<and> n \<le> width * max_width div height
               \<and> (\<not> height dvd width * max_width \<longrightarrow> n = width * max_width div height)
               \<and> resize_dims max_width width height
                   = (if 1 \<le> n then Inr (n, max_width) else Inl ValueError)"
    by blast
next
  show "resize_dims 1500 3000 2000 = Inr (1500, 1000)" by code_simp
qed

text \<open>
  C2 as stated fails: for a 4000 by 3999 image and maximum 1000 the smaller side is
  \<open>3999 * 1000 / 4000 = 999.75\<close>, which rounds to 1000; the code yields 999.
\<close>

theorem resize_dims_nearest_counterexample:
  "resize_dims 1000 4000 3999 = Inr (1000, 999)
   \<and> round ((3999::real) * 1000 / 4000) = 1000"
proof
  show "resize_dims 1000 4000 3999 = Inr (1000, 999)" by code_simp
  show "round ((3999::real) * 1000 / 4000) = 1000" by (simp add: round_def)
qed

theorem resize_dims_truncates_witness:
  "(0::int) < 1600 \<and> (1600::int) < max 2156 2156 \<and> (0::int) < 2156
   \<and> (1600::int) * max 2156 2156 < 2 ^ 51
   \<and> resize_dims 1600 2156 2156 = Inr (1599, 1600)
   \<and> (\<exists>n. 2156 * 1600 div 2156 - 1 \<le> n \<and> n \<le> 2156 * 1600 div 2156
          \<and> resize_dims 1600 2156 2156 = (if 1 \<le> n then Inr (n, 1600) else Inl ValueError))"
proof -
  have h: "(0::int) < 1600 \<and> (1600::int) < max 2156 2156 \<and> (0::int) < 2156 \<and> (0::int) < 2156
           \<and> (1600::int) * max 2156 2156 < 2 ^ 51"
    by simp
  have l: "(2156::int) \<le> 2156" by simp
  have e: "resize_dims 1600 2156 2156 = Inr (1599, 1600)" by code_simp
  from resize_dims_truncates [of 2156 2156 1600] h l
  have "\<exists>n. 2156 * 1600 div 2156 - 1 \<le> n \<and> n \<le> 2156 * 1600 div 2156
          \<and> (\<not> (2156::int) dvd 2156 * 1600 \<longrightarrow> n = 2156 * 1600 div 2156)
          \<and> resize_dims 1600 2156 2156 = (if 1 \<le> n then Inr (n, 1600) else Inl ValueError)"
    by blast
  then have "\<exists>n. 2156 * 1600 div 2156 - 1 \<le> n \<and> n \<le> 2156 * 1600 div 2156
          \<and> resize_dims 1600 2156 2156 = (if 1 \<le> n then Inr (n, 1600) else Inl ValueError)"
    by blast
  with h e show ?thesis by blast
qed

text \<open>
  A side that the scaling truncates to 0 makes the resize raise: 5000 by 1 at maximum 1000,
  and 2000 by 1 at the default maximum of 1600.
\<close>

lemma resize_dims_degenerate:
  "resize_dims 1000 5000 1 = Inl ValueError \<and> resize_dims 1600 2000 1 = Inl ValueError"
  by code_simp


text \<open>
  C3 (amended). The percentage never raises and is 0 for an original size of 0. For every
  successful transcode the result carries \<^verbatim>\<open>int((1 - new_size / orig_size) * 100)\<close> computed
  in floats: the exact percentage \<open>100 * (orig - new) / orig\<close> truncated toward zero, not
  rounded to the nearest; when the exact percentage is a whole number the result may be
  one nearer to zero. (The bounds are stated for sizes below \<open>2 ^ 43\<close> bytes.)
\<close>

theorem compression_truncates:
  "(\<exists>c. compression orig new = Inr c)
   \<and> compression 0 new = Inr 0
   \<and> (convert_to_webp input_path output_name = Inr (size_before, size_after) \<longrightarrow>
        (\<exists>c. compression (int size_before) (int size_after) = Inr c
            \<and> process_image convert_to_webp input_path output_name (Some file_type)
                = ImageOk (file_name input_path) output_name (action_of file_type)
                    size_before size_after c))
   \<and> (0 < orig \<and> orig < 2 ^ 43 \<and> 0 \<le> new \<and> new \<le> orig \<longrightarrow>
        (\<exists>c. compression orig new = Inr c
            \<and> 100 * (orig - new) div orig - 1 \<le> c \<and> c \<le> 100 * (orig - new) div orig
            \<and> (\<not> orig dvd 100 * (orig - new) \<longrightarrow> c = 100 * (orig - new) div orig)))
   \<and> (0 < orig \<and> orig < new \<and> new < 2 ^ 43 \<longrightarrow>
        (\<exists>c. compression orig new = Inr c
            \<and> - (100 * (new - orig) div orig) \<le> c \<and> c \<le> 1 - 100 * (new - orig) div orig
            \<and> (\<not> orig dvd 100 * (new - orig) \<longrightarrow> c = - (100 * (new - orig) div orig))))"
proof (intro conjI impI)
  show "\<exists>c. compression orig new = Inr c" by (rule compression_total)
next
  show "compression 0 new = Inr 0" by (simp add: compression_def)
next
  assume a: "convert_to_webp input_path output_name = Inr (size_before, size_after)"
  from compression_total [of "int size_before" "int size_after"] obtain c
    where c: "compression (int size_before) (int size_after) = Inr c" by blast
  with a have "process_image convert_to_webp input_path output_name (Some file_type)
                = ImageOk (file_name input_path) output_name (action_of file_type)
                    size_before size_after c"
    by (simp add: process_image_def)
  with c show "\<exists>c. compression (int size_before) (int size_after) = Inr c
            \<and> process_image convert_to_webp input_path output_name (Some file_type)
                = ImageOk (file_name input_path) output_name (action_of file_type)
                    size_before size_after c"
    by blast
next
  assume "0 < orig \<and> orig < 2 ^ 43 \<and> 0 \<le> new \<and> new \<le> orig"
  then show "\<exists>c. compression orig new = Inr c
            \<and> 100 * (orig - new) div orig - 1 \<le> c \<and> c \<le> 100 * (orig - new) div orig
            \<and> (\<not> orig dvd 100 * (orig - new) \<longrightarrow> c = 100 * (orig - new) div orig)"
    using compression_shrunk [of orig new] by blast
next
  assume "0 < orig \<and> orig < new \<and> new < 2 ^ 43"
  then show "\<exists>c. compression orig new = Inr c
            \<and> - (100 * (new - orig) div orig) \<le> c \<and> c \<le> 1 - 100 * (new - orig) div orig
            \<and> (\<not> orig dvd 100 * (new - orig) \<longrightarrow> c = - (100 * (new - orig) div orig))"
    using compression_grown [of orig new] by blast
qed

text \<open>
  C3 as stated fails: for an original of 16 bytes and an output of 1 byte the percentage
  is 93.75, which rounds to 94; the code reports 93.
\<close>

theorem compression_round_counterexample:
  "compression 16 1 = Inr 93 \<and> round ((1 - 1 / 16) * 100 :: real) = 94"
proof
  show "compression 16 1 = Inr 93" by code_simp
  show "round ((1 - 1 / 16) * 100 :: real) = 94" by (simp add: round_def)
qed

theorem compression_truncates_witness:
  "(0::int) < 100 \<and> (100::int) < 2 ^ 43 \<and> (0::int) \<le> 34 \<and> (34::int) \<le> 100
   \<and> compression 100 34 = Inr 65
   \<and> (\<exists>c. compression 100 34 = Inr c
          \<and> 100 * (100 - 34) div 100 - 1 \<le> c \<and> c \<le> 100 * (100 - 34) div 100)"
proof -
  have h: "(0::int) < 100 \<and> (100::int) < 2 ^ 43 \<and> (0::int) \<le> 34 \<and> (34::int) \<le> 100"
    by simp
  have e: "compression 100 34 = Inr 65" by code_simp
  from compression_truncates [of 100 34] h
  have "\<exists>c. compression 100 34 = Inr c
          \<and> 100 * (100 - 34) div 100 - 1 \<le> c \<and> c \<le> 100 * (100 - 34) div 100
          \<and> (\<not> (100::int) dvd 100 * (100 - 34) \<longrightarrow> c = 100 * (100 - 34) div 100)"
    by blast
  then have "\<exists>c. compression 100 34 = Inr c
          \<and> 100 * (100 - 34) div 100 - 1 \<le> c \<and> c \<le> 100 * (100 - 34) div 100"
    by blast
  with h e show ?thesis by blast
qed


end
